theory Spec2Isabelle
  imports Complex_Main "HOL-Library.Log_Nat" "HOL-Library.AList"
begin

section \<open>Python values used by the two scripts\<close>

text \<open>
  Python integers are unbounded and are modelled by \<open>int\<close>.  A call either returns a
  value or is left by an exception; both are results of the model.  A third result marks
  the one place where a run leaves what is modelled here: an integer raised to a negative
  integer power is computed by the C library's floating-point \<open>pow\<close>, and where the power
  is not itself a float its last digit is the library's.  That does not happen in a call
  that \<open>err\<close> makes (lemma \<open>err_sg_inside\<close>).
\<close>

datatype exn =
    ZeroDivisionError
  | OverflowError
  | IndexError
  | NameError
  | AttributeError
  | ValueError
  | KeyError

datatype 'a outcome =
    Returns 'a
  | Raises exn
  | Outside_model

fun bind :: "'a outcome \<Rightarrow> ('a \<Rightarrow> 'b outcome) \<Rightarrow> 'b outcome" where
  "bind (Returns x) f = f x"
| "bind (Raises e) f = Raises e"
| "bind Outside_model f = Outside_model"

text \<open>
  \<open>range(start, stop, step)\<close> for a non-zero step (every call in the source has a constant
  step of \<open>-1\<close>, \<open>1\<close> or \<open>8\<close>).  The length is the one CPython computes.
\<close>

definition range_len :: "int \<Rightarrow> int \<Rightarrow> int \<Rightarrow> int" where
  "range_len start stop step =
     (if 0 < step \<and> start < stop then (stop - start - 1) div step + 1
      else if step < 0 \<and> stop < start then (start - stop - 1) div (- step) + 1
      else 0)"

definition py_range :: "int \<Rightarrow> int \<Rightarrow> int \<Rightarrow> int list" where
  "py_range start stop step =
     map (\<lambda>i. start + step * int i) [0 ..< nat (range_len start stop step)]"

text \<open>\<open>reduce(op.mul, xs, 1)\<close>: a left fold of the product, starting from 1.\<close>

definition reduce_mul :: "int list \<Rightarrow> int" where
  "reduce_mul xs = foldl (\<lambda>acc x. acc * x) 1 xs"

text \<open>\<open>x // y\<close> on integers: floor division, \<open>ZeroDivisionError\<close> for a zero divisor.\<close>

definition py_floordiv :: "int \<Rightarrow> int \<Rightarrow> int outcome" where
  "py_floordiv x y = (if y = 0 then Raises ZeroDivisionError else Returns (x div y))"

section \<open>Python floats\<close>

text \<open>
  A Python float is an IEEE 754 binary64 number.  A finite float is modelled by the
  rational number it denotes (\<open>pyfloat\<close>; the sign of a zero is not kept, the scripts never
  observe it), a float in general by \<open>float_val\<close>, which adds the two infinities (no
  operation of the scripts gives a NaN).  Integer true division, the conversion of an
  integer and float division round to nearest, ties to even.

  \<open>pow2 e\<close> is \<open>2\<close> to the integer power \<open>e\<close>.
\<close>

type_synonym pyfloat = rat

datatype float_val = Finite pyfloat | Pos_infinity | Neg_infinity

text \<open>\<open>x < y\<close> on floats.\<close>

fun float_less :: "float_val \<Rightarrow> float_val \<Rightarrow> bool" where
  "float_less (Finite x) (Finite y) \<longleftrightarrow> x < y"
| "float_less (Finite x) Pos_infinity \<longleftrightarrow> True"
| "float_less (Finite x) Neg_infinity \<longleftrightarrow> False"
| "float_less Pos_infinity y \<longleftrightarrow> False"
| "float_less Neg_infinity (Finite y) \<longleftrightarrow> True"
| "float_less Neg_infinity Pos_infinity \<longleftrightarrow> True"
| "float_less Neg_infinity Neg_infinity \<longleftrightarrow> False"

definition pow2 :: "int \<Rightarrow> rat" where
  "pow2 e = (if 0 \<le> e then 2 ^ nat e else 1 / 2 ^ nat (- e))"

text \<open>The nearest integer, a tie going to the even neighbour.\<close>

definition round_half_even :: "rat \<Rightarrow> int" where
  "round_half_even x =
     (let f = \<lfloor>x\<rfloor>; r = x - of_int f
      in if r < 1 / 2 then f
         else if 1 / 2 < r then f + 1
         else if even f then f else f + 1)"

text \<open>
  For \<open>x > 0\<close>, \<open>ilog2 x\<close> is the exponent of the leading binary digit:
  \<open>2 ^ ilog2 x \<le> x < 2 ^ (ilog2 x + 1)\<close>.
\<close>

definition ilog2 :: "rat \<Rightarrow> int" where
  "ilog2 x = (if 1 \<le> x then bitlen \<lfloor>x\<rfloor> - 1 else - bitlen (\<lceil>1 / x\<rceil> - 1))"

text \<open>
  The exponent of the unit in the last place of the binary64 numbers around \<open>x\<close>:
  53 significant bits, and no exponent below that of the subnormal numbers.
\<close>

definition ulp_exp :: "rat \<Rightarrow> int" where
  "ulp_exp x = max (ilog2 \<bar>x\<bar> - 52) (- 1074)"

text \<open>
  Rounding to the binary64 grid with the exponent unbounded above; the result is a binary64
  number exactly when its magnitude stays below \<open>2 ^ 1024\<close>.
\<close>

definition round_double :: "rat \<Rightarrow> rat" where
  "round_double x =
     (if x = 0 then 0
      else of_int (round_half_even (x / pow2 (ulp_exp x))) * pow2 (ulp_exp x))"

definition double_overflow :: "rat \<Rightarrow> bool" where
  "double_overflow x \<longleftrightarrow> 2 ^ 1024 \<le> \<bar>round_double x\<bar>"

text \<open>
  \<open>a / b\<close> on two integers: \<open>ZeroDivisionError\<close> for \<open>b = 0\<close>, \<open>OverflowError\<close>
  ("integer division result too large for a float") when the correctly rounded quotient
  is no binary64 number, and the correctly rounded quotient otherwise.
\<close>

definition int_truediv :: "int \<Rightarrow> int \<Rightarrow> pyfloat outcome" where
  "int_truediv a b =
     (if b = 0 then Raises ZeroDivisionError
      else if double_overflow (of_int a / of_int b) then Raises OverflowError
      else Returns (round_double (of_int a / of_int b)))"

text \<open>
  The conversion of an integer operand to a float: \<open>OverflowError\<close> ("int too large to
  convert to float") when the rounded value is no binary64 number.
\<close>

definition float_of_int :: "int \<Rightarrow> pyfloat outcome" where
  "float_of_int c =
     (if double_overflow (of_int c) then Raises OverflowError
      else Returns (round_double (of_int c)))"

text \<open>
  \<open>x / y\<close> on two finite floats: \<open>ZeroDivisionError\<close> for \<open>y = 0\<close>; float division itself
  never raises \<open>OverflowError\<close>, a quotient too large is the infinity of its sign.
\<close>

definition float_div :: "pyfloat \<Rightarrow> pyfloat \<Rightarrow> float_val outcome" where
  "float_div x y =
     (if y = 0 then Raises ZeroDivisionError
      else if double_overflow (x / y)
        then Returns (if 0 < x / y then Pos_infinity else Neg_infinity)
      else Returns (Finite (round_double (x / y))))"

text \<open>
  \<open>n ** k\<close> on two integers is an integer for \<open>k \<ge> 0\<close>.  For \<open>k < 0\<close> it is a float:
  Python converts \<open>n\<close>, then \<open>k\<close>, to floats (\<open>OverflowError\<close> when one is too large), raises
  \<open>ZeroDivisionError\<close> for a zero base, and hands the two floats to the C library's \<open>pow\<close>.
  The mathematical power is \<open>(1 / x) ^ (-y)\<close>, of magnitude at most one.  When it is a
  binary64 number the library returns it; when it is not, the last digit of the result is
  the library's, and the model stops.
\<close>

datatype number = Int_num int | Float_num pyfloat

definition py_pow :: "int \<Rightarrow> int \<Rightarrow> number outcome" where
  "py_pow n k =
     (if 0 \<le> k then Returns (Int_num (n ^ nat k))
      else
        bind (float_of_int n) (\<lambda>x.
        bind (float_of_int k) (\<lambda>y.
        if x = 0 then Raises ZeroDivisionError
        else
          let v = (1 / x) ^ nat (- \<lfloor>y\<rfloor>)
          in if round_double v = v then Returns (Float_num v) else Outside_model)))"

text \<open>
  \<open>d / c\<close> for a finite float \<open>d\<close> and a number \<open>c\<close>: an integer \<open>c\<close> is converted first.
\<close>

definition float_div_num :: "pyfloat \<Rightarrow> number \<Rightarrow> float_val outcome" where
  "float_div_num d c =
     (case c of
        Int_num i \<Rightarrow> bind (float_of_int i) (\<lambda>cf. float_div d cf)
      | Float_num cf \<Rightarrow> float_div d cf)"

section \<open>kkw\_param.py: the binomial coefficient\<close>

text \<open>
  \<^verbatim>\<open>
  def ncr(n, r):
      r = min(r, n-r)
      numer = reduce(op.mul, range(n, n-r, -1), 1)
      denom = reduce(op.mul, range(1, r+1), 1)
      return numer // denom
  \<close>
\<close>

definition ncr_r :: "int \<Rightarrow> int \<Rightarrow> int" where
  "ncr_r n r = min r (n - r)"

definition ncr_numer :: "int \<Rightarrow> int \<Rightarrow> int" where
  "ncr_numer n r = reduce_mul (py_range n (n - ncr_r n r) (- 1))"

definition ncr_denom :: "int \<Rightarrow> int \<Rightarrow> int" where
  "ncr_denom n r = reduce_mul (py_range 1 (ncr_r n r + 1) 1)"

definition ncr :: "int \<Rightarrow> int \<Rightarrow> int outcome" where
  "ncr n r = py_floordiv (ncr_numer n r) (ncr_denom n r)"

text \<open>A candidate is the pair \<open>(M, tau)\<close>.\<close>

type_synonym candidate = "int \<times> int"

section \<open>kkw\_param.py: the best-candidate selector\<close>

text \<open>
  \<^verbatim>\<open>
  min_tuples = tuple((10000,10000))
  for tp in lst:
      if tp[1] < min_tuples[1]:
          min_tuples = tp
      if tp[0] < min_tuples[0] and tp[1] == min_tuples[1]:
          min_tuples = tp
  \<close>
  \<open>tp[0]\<close> is \<open>fst\<close>, \<open>tp[1]\<close> is \<open>snd\<close>.
  The second \<open>if\<close> reads the holder as the first one left it.
\<close>

definition sentinel :: candidate where
  "sentinel = (10000, 10000)"

definition select_step :: "candidate \<Rightarrow> candidate \<Rightarrow> candidate" where
  "select_step min_tuples tp =
     (let m1 = (if snd tp < snd min_tuples then tp else min_tuples)
      in if fst tp < fst m1 \<and> snd tp = snd m1 then tp else m1)"

definition select_best :: "candidate list \<Rightarrow> candidate" where
  "select_best lst = foldl select_step sentinel lst"

text \<open>The order the specification names: smaller tau first, then smaller M.\<close>

definition tau_then_M_le :: "candidate \<Rightarrow> candidate \<Rightarrow> bool" where
  "tau_then_M_le p q \<longleftrightarrow> snd p < snd q \<or> (snd p = snd q \<and> fst p \<le> fst q)"

section \<open>kkw\_param.py: the soundness error\<close>

text \<open>
  \<^verbatim>\<open>
  target = 0.5**60
  \<close>
  \<open>0.5 ** 60\<close> is the binary64 number \<open>2 ^ -60\<close>.
\<close>

definition target :: pyfloat where
  "target = 1 / 2 ^ 60"

text \<open>
  \<^verbatim>\<open>
  def err_sg(M, tau, n, rho):
      a = ncr(rho, M-tau)
      b = ncr(M, M-tau)
      c = n**(rho-M+tau)
      try:
          d = a/b
          e = d/c
      except OverflowError:
          return 0.0
      return e
  \<close>
  \<open>err_sg_try\<close> is the body of the \<open>try\<close>; \<open>except_overflow\<close> is the handler, which lets
  every other exception pass.
\<close>

definition err_sg_try :: "int \<Rightarrow> int \<Rightarrow> number \<Rightarrow> float_val outcome" where
  "err_sg_try a b c = bind (int_truediv a b) (\<lambda>d. float_div_num d c)"

fun except_overflow :: "float_val outcome \<Rightarrow> float_val outcome" where
  "except_overflow (Raises OverflowError) = Returns (Finite 0)"
| "except_overflow r = r"

definition err_sg :: "int \<Rightarrow> int \<Rightarrow> int \<Rightarrow> int \<Rightarrow> float_val outcome" where
  "err_sg M tau n rho =
     bind (ncr rho (M - tau)) (\<lambda>a.
     bind (ncr M (M - tau)) (\<lambda>b.
     bind (py_pow n (rho - M + tau)) (\<lambda>c.
     except_overflow (err_sg_try a b c))))"

text \<open>
  \<^verbatim>\<open>
  def err(M, tau, n):
      base = 0.0
      for rho in range(M-tau+1, M+1):
          ret = err_sg(M, tau, n, rho)
          if ret > base:
              base = ret
      if base < target:
          lst.append(tuple((M,tau)))
  \<close>
  \<open>err_loop\<close> is the \<open>for\<close> loop with \<open>base\<close> as its state (\<open>ret > base\<close> is
  \<open>float_less base ret\<close>), \<open>err_base\<close> the value of \<open>base\<close> after it.  \<open>err\<close> has no
  \<open>return\<close>: its result is \<open>None\<close>, and what it does is to the global list \<open>lst\<close>, which the
  model passes in and returns.
\<close>

fun err_loop :: "int \<Rightarrow> int \<Rightarrow> int \<Rightarrow> int list \<Rightarrow> float_val \<Rightarrow> float_val outcome" where
  "err_loop M tau n [] base = Returns base"
| "err_loop M tau n (rho # rhos) base =
     bind (err_sg M tau n rho) (\<lambda>ret.
     err_loop M tau n rhos (if float_less base ret then ret else base))"

definition err_base :: "int \<Rightarrow> int \<Rightarrow> int \<Rightarrow> float_val outcome" where
  "err_base M tau n = err_loop M tau n (py_range (M - tau + 1) (M + 1) 1) (Finite 0)"

definition err :: "int \<Rightarrow> int \<Rightarrow> int \<Rightarrow> candidate list \<Rightarrow> candidate list outcome" where
  "err M tau n lst =
     bind (err_base M tau n) (\<lambda>base.
     Returns (if float_less base (Finite target) then lst @ [(M, tau)] else lst))"

text \<open>
  The pair \<open>(M, tau)\<close> meets the target: the worst-case error \<open>err\<close> computes for it is below
  \<open>target\<close>.
\<close>

definition meets_target :: "int \<Rightarrow> int \<Rightarrow> int \<Rightarrow> bool" where
  "meets_target M tau n =
     (case err_base M tau n of Returns base \<Rightarrow> float_less base (Finite target) | _ \<Rightarrow> False)"

section \<open>kkw\_param.py: the search and the program\<close>

text \<open>
  \<^verbatim>\<open>
  n = 16
  lst = []
  for M in range(64, 512, 8):
      for tau in range(8, 50, 8):
          err(M, tau, n)
  print("finish computing")
  (the selector)
  print(min_tuples)
  \<close>
  The two loops are written over any two lists of values, so that the search can also be
  run on a smaller range; \<open>kkw_main\<close> is the program, with the ranges and the \<open>n\<close> of the
  source, and its result is the pair the last \<open>print\<close> writes.
\<close>

fun tau_loop :: "int \<Rightarrow> int list \<Rightarrow> int \<Rightarrow> candidate list \<Rightarrow> candidate list outcome" where
  "tau_loop M [] n lst = Returns lst"
| "tau_loop M (tau # taus) n lst = bind (err M tau n lst) (\<lambda>lst'. tau_loop M taus n lst')"

fun M_loop :: "int list \<Rightarrow> int list \<Rightarrow> int \<Rightarrow> candidate list \<Rightarrow> candidate list outcome" where
  "M_loop [] taus n lst = Returns lst"
| "M_loop (M # Ms) taus n lst = bind (tau_loop M taus n lst) (\<lambda>lst'. M_loop Ms taus n lst')"

definition search :: "int list \<Rightarrow> int list \<Rightarrow> int \<Rightarrow> candidate list outcome" where
  "search Ms taus n = M_loop Ms taus n []"

definition run :: "int list \<Rightarrow> int list \<Rightarrow> int \<Rightarrow> candidate outcome" where
  "run Ms taus n = bind (search Ms taus n) (\<lambda>lst. Returns (select_best lst))"

definition kkw_main :: "candidate outcome" where
  "kkw_main = run (py_range 64 512 8) (py_range 8 50 8) 16"

section \<open>parse\_result.py: the log parser\<close>

text \<open>
  \<^verbatim>\<open>
  circuit_names = ['amortized_aco_512_12.txt', ..., 'amortized_akv.txt']
  with open(output_file_path, 'r') as output_file:
      lines = output_file.readlines()
  parsed_data = {}
  for i, line in enumerate(lines):
      if line.startswith('The size of the serialized object'):
          size = int(re.search(r'\d+', line).group())
          circuit_name = circuit_names[i]
          parsed_data[circuit_name] = {'size': size}
      elif line.startswith('Elapsed'):
          time_ms = float(re.search(r'[\d.]+', line).group())
          parsed_data[circuit_name]['time_ms'] = time_ms
  (write the header, then one row per item of parsed_data, reading
   data['size'] and data['time_ms'])
  \<close>
  The input of the model is the list of lines.  A line is a list of characters below 256,
  where \<open>\d\<close> is one of the ten ASCII digits.  (A Python with the limit on the digits of
  \<open>int(...)\<close> raises \<open>ValueError\<close> on more than 4300 digits; that is not modelled.)
\<close>

definition circuit_names :: "string list" where
  "circuit_names =
     [''amortized_aco_512_12.txt'', ''amortized_aco_128_9.txt'', ''amortized_aco_128_8.txt'',
      ''amortized_aco_64_8.txt'', ''amortized_aco_64_9.txt'', ''amortized_aco_256_9.txt'',
      ''amortized_aco_256_10.txt'', ''amortized_aco_512_7.txt'', ''amortized_aco_512_11.txt'',
      ''amortized_aco_512_9.txt'', ''amortized_aco_128_10.txt'', ''amortized_aco_128_11.txt'',
      ''amortized_aco_128_12.txt'', ''amortized_aco_256_12.txt'', ''amortized_aco_256_11.txt'',
      ''amortized_aco_256_8.txt'', ''amortized_aco_64_12.txt'', ''amortized_aco_512_10.txt'',
      ''amortized_aco_64_11.txt'', ''amortized_aco_128_7.txt'', ''amortized_aco_512_8.txt'',
      ''amortized_aco_256_7.txt'', ''amortized_aco_64_7.txt'', ''amortized_aco_64_10.txt'',
      ''amortized_akv.txt'']"

text \<open>\<open>s.startswith(p)\<close>.\<close>

definition startswith :: "string \<Rightarrow> string \<Rightarrow> bool" where
  "startswith s p \<longleftrightarrow> take (length p) s = p"

definition is_digit :: "char \<Rightarrow> bool" where
  "is_digit c \<longleftrightarrow> c \<in> set ''0123456789''"

definition is_digit_or_dot :: "char \<Rightarrow> bool" where
  "is_digit_or_dot c \<longleftrightarrow> is_digit c \<or> c = CHR ''.''"

text \<open>
  \<open>re.search\<close> for a pattern that is one character class repeated (\<open>\d+\<close>, \<open>[\d.]+\<close>): the
  first character of the class and all that follow it in the class; \<open>None\<close> when there is
  none.  \<open>.group()\<close> of \<open>None\<close> raises \<open>AttributeError\<close>.
\<close>

definition re_search_run :: "(char \<Rightarrow> bool) \<Rightarrow> string \<Rightarrow> string option" where
  "re_search_run p s =
     (case dropWhile (\<lambda>c. \<not> p c) s of [] \<Rightarrow> None | t \<Rightarrow> Some (takeWhile p t))"

definition group :: "string option \<Rightarrow> string outcome" where
  "group m = (case m of None \<Rightarrow> Raises AttributeError | Some s \<Rightarrow> Returns s)"

text \<open>\<open>int(s)\<close> for a string of digits.\<close>

definition digit_val :: "char \<Rightarrow> int" where
  "digit_val c = of_char c - 48"

definition int_of_digits :: "string \<Rightarrow> int" where
  "int_of_digits s = foldl (\<lambda>a c. 10 * a + digit_val c) 0 s"

text \<open>
  \<open>float(s)\<close> for a string of digits and dots: \<open>ValueError\<close> unless it has a digit and at
  most one dot; the decimal value correctly rounded, and infinity when that is too large.
\<close>

definition float_of_text :: "string \<Rightarrow> float_val outcome" where
  "float_of_text s =
     (let whole = takeWhile (\<lambda>c. c \<noteq> CHR ''.'') s;
          frac = drop 1 (dropWhile (\<lambda>c. c \<noteq> CHR ''.'') s)
      in if list_ex (\<lambda>c. c = CHR ''.'') frac \<or> \<not> list_ex is_digit s then Raises ValueError
         else let v = of_int (int_of_digits (whole @ frac)) / 10 ^ length frac
              in Returns (if double_overflow v then Pos_infinity else Finite (round_double v)))"

text \<open>
  The inner dictionary of a circuit has the key \<open>'size'\<close> from its creation and the key
  \<open>'time_ms'\<close> once an elapsed line has been read; \<open>parsed_data\<close> keeps its keys in the order
  of their first assignment.  \<open>circuit_name\<close> is unbound until the first size line.
\<close>

record entry =
  size :: int
  time_ms :: "float_val option"

record pstate =
  parsed_data :: "(string \<times> entry) list"
  circuit_name :: "string option"

text \<open>\<open>xs[i]\<close> for \<open>i \<ge> 0\<close>.\<close>

definition list_index :: "'a list \<Rightarrow> nat \<Rightarrow> 'a outcome" where
  "list_index xs i = (if i < length xs then Returns (xs ! i) else Raises IndexError)"

definition step :: "nat \<Rightarrow> string \<Rightarrow> pstate \<Rightarrow> pstate outcome" where
  "step i line st =
     (if startswith line ''The size of the serialized object'' then
        bind (group (re_search_run is_digit line)) (\<lambda>digits.
        bind (list_index circuit_names i) (\<lambda>name.
        Returns \<lparr>parsed_data = AList.update name \<lparr>size = int_of_digits digits, time_ms = None\<rparr>
                                 (parsed_data st),
                 circuit_name = Some name\<rparr>))
      else if startswith line ''Elapsed'' then
        bind (group (re_search_run is_digit_or_dot line)) (\<lambda>text.
        bind (float_of_text text) (\<lambda>t.
        case circuit_name st of
          None \<Rightarrow> Raises NameError
        | Some name \<Rightarrow>
            (case map_of (parsed_data st) name of
               None \<Rightarrow> Raises KeyError
             | Some e \<Rightarrow>
                 Returns (st\<lparr>parsed_data := AList.update name (e\<lparr>time_ms := Some t\<rparr>)
                                                (parsed_data st)\<rparr>))))
      else Returns st)"

fun parse_loop :: "nat \<Rightarrow> string list \<Rightarrow> pstate \<Rightarrow> pstate outcome" where
  "parse_loop i [] st = Returns st"
| "parse_loop i (line # lines) st = bind (step i line st) (\<lambda>st'. parse_loop (Suc i) lines st')"

text \<open>The rows of the CSV file; \<open>data['time_ms']\<close> raises \<open>KeyError\<close> when the key is missing.\<close>

fun write_rows :: "(string \<times> entry) list \<Rightarrow> (string \<times> int \<times> float_val) list outcome" where
  "write_rows [] = Returns []"
| "write_rows ((name, e) # rest) =
     (case time_ms e of
        None \<Rightarrow> Raises KeyError
      | Some t \<Rightarrow> bind (write_rows rest) (\<lambda>rows. Returns ((name, size e, t) # rows)))"

definition parse_result :: "string list \<Rightarrow> (string \<times> int \<times> float_val) list outcome" where
  "parse_result lines =
     bind (parse_loop 0 lines \<lparr>parsed_data = [], circuit_name = None\<rparr>) (\<lambda>st.
     write_rows (parsed_data st))"

text \<open>
  What a line is to the loop, and two ways the size and elapsed lines can follow each
  other: \<open>strictly_interleaved\<close> (size, elapsed, size, elapsed, ...) and \<open>pairing_ok\<close>
  (no elapsed line before the first size line, and after every size line at least one
  elapsed line before the next size line or the end).
\<close>

datatype kind = Size_line | Elapsed_line | Other_line

definition kind_of :: "string \<Rightarrow> kind" where
  "kind_of line =
     (if startswith line ''The size of the serialized object'' then Size_line
      else if startswith line ''Elapsed'' then Elapsed_line
      else Other_line)"

definition matching :: "string list \<Rightarrow> kind list" where
  "matching lines = filter (\<lambda>k. k \<noteq> Other_line) (map kind_of lines)"

fun strictly_interleaved :: "kind list \<Rightarrow> bool" where
  "strictly_interleaved [] = True"
| "strictly_interleaved (Size_line # Elapsed_line # ks) = strictly_interleaved ks"
| "strictly_interleaved ks = False"

datatype pairing = No_size | Awaiting | Timed

fun pairing_ok :: "pairing \<Rightarrow> kind list \<Rightarrow> bool" where
  "pairing_ok q [] = (q \<noteq> Awaiting)"
| "pairing_ok q (Size_line # ks) = (q \<noteq> Awaiting \<and> pairing_ok Awaiting ks)"
| "pairing_ok q (Elapsed_line # ks) = (q \<noteq> No_size \<and> pairing_ok Timed ks)"
| "pairing_ok q (Other_line # ks) = pairing_ok q ks"

section \<open>Facts about ranges and products\<close>

lemma foldl_mul: "foldl (\<lambda>acc x. acc * x) a xs = a * prod_list xs" for a :: int
  by (induction xs arbitrary: a) (simp_all add: mult.assoc)

lemma reduce_mul_prod_list: "reduce_mul xs = prod_list xs"
  by (simp add: reduce_mul_def foldl_mul)

lemma range_len_down: "range_len n (n - k) (- 1) = (if 0 < k then k else 0)"
  unfolding range_len_def by simp

lemma py_range_down: "py_range n (n - k) (- 1) = map (\<lambda>i. n - int i) [0 ..< nat k]"
  unfolding py_range_def range_len_down by simp

lemma range_len_up: "range_len 1 (k + 1) 1 = (if 0 < k then k else 0)"
  unfolding range_len_def by simp

lemma py_range_up: "py_range 1 (k + 1) 1 = map (\<lambda>i. 1 + int i) [0 ..< nat k]"
  unfolding py_range_def range_len_up by simp

lemma prod_list_upt: "prod_list (map f [0 ..< m]) = (\<Prod>i = 0 ..< m. f i)" for f :: "nat \<Rightarrow> int"
  by (induction m) (simp_all add: mult.commute)

lemma prod_succ_fact: "(\<Prod>i = 0 ..< m. 1 + int i) = fact m"
  by (induction m) (simp_all add: algebra_simps)

lemma falling_fact: "k \<le> n \<Longrightarrow> (\<Prod>i = 0 ..< k. n - i) * fact (n - k) = (fact n :: nat)"
proof (induction k)
  case 0
  then show ?case by simp
next
  case (Suc k)
  then have kn: "k < n" by simp
  then obtain j where j: "n - k = Suc j" "n - Suc k = j"
    by (metis Suc_diff_Suc)
  have "(\<Prod>i = 0 ..< Suc k. n - i) * fact (n - Suc k) = (\<Prod>i = 0 ..< k. n - i) * (Suc j * fact j)"
    unfolding j(2) using j(1) by (simp only: prod.atLeast0_lessThan_Suc mult.assoc)
  also have "Suc j * fact j = (fact (n - k) :: nat)"
    unfolding j(1) by simp
  also have "(\<Prod>i = 0 ..< k. n - i) * fact (n - k) = (fact n :: nat)"
    using Suc.IH kn by simp
  finally show ?case .
qed

lemma falling_choose: "k \<le> n \<Longrightarrow> (\<Prod>i = 0 ..< k. n - i) = fact k * (n choose k)"
proof -
  assume kn: "k \<le> n"
  have "(\<Prod>i = 0 ..< k. n - i) * fact (n - k) = fact k * (n choose k) * fact (n - k)"
    using falling_fact [OF kn] binomial_fact_lemma [OF kn] by (simp add: mult_ac)
  then show ?thesis by simp
qed

lemma falling_int: "k \<le> n \<Longrightarrow> (\<Prod>i = 0 ..< k. int n - int i) = int (\<Prod>i = 0 ..< k. n - i)"
  by (simp add: of_nat_diff)

lemma ncr_denom_eq: "ncr_denom n r = fact (nat (ncr_r n r))"
  by (simp add: ncr_denom_def reduce_mul_prod_list py_range_up prod_list_upt prod_succ_fact)

lemma ncr_numer_eq:
  assumes "0 \<le> r" "r \<le> n"
  shows "ncr_numer n r = fact (nat (ncr_r n r)) * int (nat n choose nat (ncr_r n r))"
proof -
  obtain m where m: "n = int m"
    using assms by (metis nat_0_le order_trans)
  define k where "k = nat (ncr_r n r)"
  have k: "k \<le> m"
    using assms m by (auto simp: k_def ncr_r_def)
  have "ncr_numer n r = (\<Prod>i = 0 ..< k. int m - int i)"
    unfolding ncr_numer_def reduce_mul_prod_list py_range_down prod_list_upt k_def m ..
  also have "\<dots> = int (fact k * (m choose k))"
    unfolding falling_int [OF k] falling_choose [OF k] ..
  finally show ?thesis
    by (simp add: k_def m)
qed

lemma ncr_r_choose:
  assumes "0 \<le> r" "r \<le> n"
  shows "nat n choose nat (ncr_r n r) = nat n choose nat r"
proof -
  have "nat (ncr_r n r) = nat r \<or> nat (ncr_r n r) = nat n - nat r"
    using assms by (auto simp: ncr_r_def min_def nat_diff_distrib)
  moreover have "nat n choose (nat n - nat r) = nat n choose nat r"
    using assms by (intro binomial_symmetric [symmetric]) simp
  ultimately show ?thesis by auto
qed

lemma ncr_choose:
  assumes "0 \<le> r" "r \<le> n"
  shows "ncr n r = Returns (int (nat n choose nat r))"
proof -
  have pos: "ncr_denom n r \<noteq> 0"
    by (simp add: ncr_denom_eq)
  have "ncr_numer n r div ncr_denom n r = int (nat n choose nat (ncr_r n r))"
    unfolding ncr_numer_eq [OF assms] ncr_denom_eq by simp
  then show ?thesis
    unfolding ncr_def py_floordiv_def ncr_r_choose [OF assms] using pos by simp
qed

lemma ncr_outside:
  assumes "r \<le> 0 \<or> n \<le> r"
  shows "ncr n r = Returns 1"
proof -
  have "nat (ncr_r n r) = 0" using assms by (auto simp: ncr_r_def)
  then show ?thesis
    by (simp add: ncr_def py_floordiv_def ncr_numer_def ncr_denom_def reduce_mul_def
        py_range_down py_range_up)
qed


section \<open>Facts about powers of two and the leading bit\<close>

lemma pow2_powi: "pow2 e = power_int 2 e"
  by (simp add: pow2_def power_int_def field_simps)

lemma pow2_pos: "0 < pow2 e"
  by (simp add: pow2_powi)

lemma pow2_add: "pow2 (a + b) = pow2 a * pow2 b"
  by (simp add: pow2_powi power_int_add)

lemma pow2_diff: "pow2 (a - b) = pow2 a / pow2 b"
  by (simp add: pow2_powi power_int_diff)

lemma pow2_0: "pow2 0 = 1"
  by (simp add: pow2_def)

lemma pow2_nat: "0 \<le> e \<Longrightarrow> pow2 e = of_int (2 ^ nat e)"
  by (simp add: pow2_def)

lemma pow2_mono: "a \<le> b \<Longrightarrow> pow2 a \<le> pow2 b"
  by (simp add: pow2_powi power_int_increasing)

lemma pow2_strict_mono: "a < b \<Longrightarrow> pow2 a < pow2 b"
  by (simp add: pow2_powi power_int_strict_increasing)

lemma pow2_less_iff: "pow2 a < pow2 b \<longleftrightarrow> a < b"
  using pow2_strict_mono [of a b] pow2_mono [of b a] by (cases "a < b") auto

lemma pow2_le_iff: "pow2 a \<le> pow2 b \<longleftrightarrow> a \<le> b"
  using pow2_strict_mono [of b a] pow2_mono [of a b] by (cases "a \<le> b") auto

lemma ilog2_bounds:
  assumes "0 < x"
  shows "pow2 (ilog2 x) \<le> x" and "x < pow2 (ilog2 x + 1)"
proof -
  have "pow2 (ilog2 x) \<le> x \<and> x < pow2 (ilog2 x + 1)"
  proof (cases "1 \<le> x")
    case True
    define f where "f = \<lfloor>x\<rfloor>"
    have f: "0 < f" "of_int f \<le> x" "x < of_int (f + 1)"
      using True by (auto simp: f_def) linarith+
    have b: "1 \<le> bitlen f"
      using f(1) by (simp add: bitlen_alt_def)
    from bitlen_bounds [OF f(1)]
    have lo: "2 ^ nat (bitlen f - 1) \<le> f" and hi: "f + 1 \<le> 2 ^ nat (bitlen f)"
      by auto
    have e: "ilog2 x = bitlen f - 1"
      using True by (simp add: ilog2_def f_def)
    have "pow2 (bitlen f - 1) = of_int (2 ^ nat (bitlen f - 1))"
      using b by (simp add: pow2_nat)
    also have "\<dots> \<le> of_int f"
      using lo by (simp only: of_int_le_iff)
    finally have 1: "pow2 (ilog2 x) \<le> x"
      using f(2) e by simp
    have "x < of_int (f + 1)" by (rule f(3))
    also have "\<dots> \<le> of_int (2 ^ nat (bitlen f))"
      using hi by (simp only: of_int_le_iff)
    also have "\<dots> = pow2 (bitlen f)"
      using b by (simp add: pow2_nat)
    finally have 2: "x < pow2 (ilog2 x + 1)"
      using e by simp
    from 1 2 show ?thesis ..
  next
    case False
    define y where "y = 1 / x"
    define c where "c = \<lceil>y\<rceil>"
    have y: "1 < y" using False assms by (simp add: y_def)
    have c: "1 \<le> c - 1" "y \<le> of_int c" "of_int (c - 1) < y"
      using y by (auto simp: c_def) linarith+
    define m where "m = bitlen (c - 1)"
    have m: "1 \<le> m"
      using c(1) by (simp add: m_def bitlen_alt_def)
    from bitlen_bounds [of "c - 1"] c(1)
    have lo: "2 ^ nat (m - 1) \<le> c - 1" and hi: "c \<le> 2 ^ nat m"
      by (auto simp: m_def)
    have e: "ilog2 x = - m"
      using False by (simp add: ilog2_def m_def c_def y_def)
    have "y \<le> of_int (2 ^ nat m)"
      using c(2) hi by (meson of_int_le_iff order_trans)
    also have "\<dots> = pow2 m" using m by (simp add: pow2_nat)
    finally have "1 / pow2 m \<le> x"
      using assms pow2_pos [of m] by (simp add: y_def field_simps)
    then have 1: "pow2 (ilog2 x) \<le> x"
      by (simp add: e pow2_powi power_int_minus field_simps)
    have "pow2 (m - 1) = of_int (2 ^ nat (m - 1))"
      using m by (simp add: pow2_nat)
    also have "\<dots> \<le> of_int (c - 1)"
      using lo by (simp only: of_int_le_iff)
    also have "\<dots> < y" by (rule c(3))
    finally have "x < 1 / pow2 (m - 1)"
      using assms pow2_pos [of "m - 1"] by (simp add: y_def field_simps)
    also have "1 / pow2 (m - 1) = pow2 (- m + 1)"
      using pow2_diff [of 0 "m - 1"] by (simp add: pow2_0)
    finally have 2: "x < pow2 (ilog2 x + 1)"
      by (simp add: e)
    from 1 2 show ?thesis ..
  qed
  then show "pow2 (ilog2 x) \<le> x" and "x < pow2 (ilog2 x + 1)" by simp_all
qed

lemma ilog2_unique:
  assumes "pow2 e \<le> x" "x < pow2 (e + 1)"
  shows "ilog2 x = e"
proof -
  have x: "0 < x" using assms(1) pow2_pos [of e] by simp
  from ilog2_bounds [OF x] assms
  have "pow2 (ilog2 x) < pow2 (e + 1)" "pow2 e < pow2 (ilog2 x + 1)"
    by simp_all
  then show ?thesis
    by (simp add: pow2_less_iff)
qed

lemma ilog2_le: "0 < x \<Longrightarrow> x \<le> pow2 j \<Longrightarrow> ilog2 x \<le> j"
  using ilog2_bounds(1) [of x] pow2_le_iff [of "ilog2 x" j] by simp

lemma ilog2_ge: "pow2 j \<le> x \<Longrightarrow> j \<le> ilog2 x"
proof -
  assume a: "pow2 j \<le> x"
  then have x: "0 < x" using pow2_pos [of j] by simp
  from ilog2_bounds(2) [OF x] a have "pow2 j < pow2 (ilog2 x + 1)" by simp
  then show ?thesis by (simp add: pow2_less_iff)
qed

section \<open>Facts about rounding\<close>

lemma round_half_even_floor: "\<lfloor>x\<rfloor> \<le> round_half_even x"
  by (simp add: round_half_even_def Let_def)

lemma round_half_even_ceiling: "round_half_even x \<le> \<lceil>x\<rceil>"
proof -
  have "\<lfloor>x\<rfloor> + 1 \<le> \<lceil>x\<rceil>" if "x - of_int \<lfloor>x\<rfloor> \<noteq> 0"
    using that by (metis ceiling_altdef eq_iff_diff_eq_0 order_refl)
  moreover have "\<lfloor>x\<rfloor> \<le> \<lceil>x\<rceil>" by (rule floor_le_ceiling)
  ultimately show ?thesis
    by (auto simp: round_half_even_def Let_def)
qed

lemma round_half_even_of_int: "round_half_even (of_int k) = k"
  by (simp add: round_half_even_def)

lemma round_half_even_le: "x \<le> of_int k \<Longrightarrow> round_half_even x \<le> k"
proof -
  assume "x \<le> of_int k"
  then have "\<lceil>x\<rceil> \<le> k" by (simp add: ceiling_le_iff)
  with round_half_even_ceiling [of x] show ?thesis by linarith
qed

lemma round_half_even_ge: "of_int k \<le> x \<Longrightarrow> k \<le> round_half_even x"
proof -
  assume "of_int k \<le> x"
  then have "k \<le> \<lfloor>x\<rfloor>" by (simp add: le_floor_iff)
  with round_half_even_floor [of x] show ?thesis by linarith
qed

lemma round_half_even_minus: "round_half_even (- x) = - round_half_even x"
proof (cases "x \<in> \<int>")
  case True
  then obtain k where "x = of_int k" by (auto elim: Ints_cases)
  then show ?thesis
    using round_half_even_of_int [of "- k"] round_half_even_of_int [of k] by simp
next
  case False
  then have ne: "x \<noteq> of_int \<lfloor>x\<rfloor>"
    by (metis Ints_of_int)
  then have f: "\<lfloor>- x\<rfloor> = - \<lfloor>x\<rfloor> - 1"
    by (simp add: floor_minus ceiling_altdef)
  have par: "even (- \<lfloor>x\<rfloor> - 1) \<longleftrightarrow> odd \<lfloor>x\<rfloor>" by simp
  show ?thesis
    unfolding round_half_even_def Let_def f par
    using ne by (auto simp: algebra_simps)
qed

lemma ulp_exp_minus: "ulp_exp (- x) = ulp_exp x"
  by (simp add: ulp_exp_def)

lemma round_double_minus: "round_double (- x) = - round_double x"
  by (simp add: round_double_def ulp_exp_minus round_half_even_minus)

lemma round_double_nonneg: "0 \<le> x \<Longrightarrow> 0 \<le> round_double x"
proof -
  assume x: "0 \<le> x"
  have "0 \<le> x / pow2 (ulp_exp x)"
    using x pow2_pos [of "ulp_exp x"] by simp
  then have "0 \<le> round_half_even (x / pow2 (ulp_exp x))"
    using round_half_even_ge [of 0] by simp
  then show ?thesis
    using pow2_pos [of "ulp_exp x"] by (simp add: round_double_def)
qed

lemma round_double_le_pow2:
  assumes "0 < x" "x \<le> pow2 j" "- 1074 \<le> j"
  shows "round_double x \<le> pow2 j"
proof -
  define q where "q = ulp_exp x"
  have "ilog2 x \<le> j" using assms(1,2) by (rule ilog2_le)
  then have q: "q \<le> j"
    using assms(1,3) by (simp add: q_def ulp_exp_def)
  have "x / pow2 q \<le> pow2 j / pow2 q"
    using assms(2) pow2_pos [of q] by (simp add: divide_right_mono)
  also have "\<dots> = of_int (2 ^ nat (j - q))"
    using q by (simp add: pow2_diff [symmetric] pow2_nat)
  finally have "round_half_even (x / pow2 q) \<le> 2 ^ nat (j - q)"
    by (rule round_half_even_le)
  then have "of_int (round_half_even (x / pow2 q)) \<le> (of_int (2 ^ nat (j - q)) :: rat)"
    by (simp only: of_int_le_iff)
  also have "\<dots> = pow2 (j - q)"
    using q by (simp add: pow2_nat)
  finally have "of_int (round_half_even (x / pow2 q)) * pow2 q \<le> pow2 (j - q) * pow2 q"
    using pow2_pos [of q] by (simp add: mult_right_mono)
  also have "\<dots> = pow2 j"
    by (simp add: pow2_add [symmetric])
  finally show ?thesis
    using assms(1) by (simp add: round_double_def q_def)
qed

lemma round_double_ge_pow2:
  assumes "pow2 j \<le> x" "- 1074 \<le> j"
  shows "pow2 j \<le> round_double x"
proof -
  have x: "0 < x" using assms(1) pow2_pos [of j] by simp
  define q where "q = ulp_exp x"
  define i where "i = min j (ilog2 x)"
  have "j \<le> ilog2 x" using assms(1) by (rule ilog2_ge)
  then have i: "i = j" by (simp add: i_def)
  define k where "k = max j q"
  have k: "q \<le> k" "j \<le> k" by (simp_all add: k_def)
  have kx: "pow2 k \<le> x"
  proof (cases "j \<le> q")
    case True
    then have "k = ilog2 x - 52 \<or> k = j"
      using assms(2) x by (auto simp: k_def q_def ulp_exp_def)
    moreover have "pow2 (ilog2 x - 52) \<le> pow2 (ilog2 x)"
      by (simp add: pow2_le_iff)
    ultimately show ?thesis
      using ilog2_bounds(1) [OF x] assms(1) by auto
  next
    case False
    then show ?thesis using assms(1) by (simp add: k_def max_def)
  qed
  have "(of_int (2 ^ nat (k - q)) :: rat) = pow2 k / pow2 q"
    using k(1) by (simp add: pow2_diff [symmetric] pow2_nat)
  also have "\<dots> \<le> x / pow2 q"
    using kx pow2_pos [of q] by (simp add: divide_right_mono)
  finally have "2 ^ nat (k - q) \<le> round_half_even (x / pow2 q)"
    by (rule round_half_even_ge)
  then have "(of_int (2 ^ nat (k - q)) :: rat) \<le> of_int (round_half_even (x / pow2 q))"
    by (simp only: of_int_le_iff)
  then have "pow2 (k - q) \<le> of_int (round_half_even (x / pow2 q))"
    using k(1) by (simp add: pow2_nat)
  then have "pow2 (k - q) * pow2 q \<le> of_int (round_half_even (x / pow2 q)) * pow2 q"
    using pow2_pos [of q] by (simp add: mult_right_mono)
  then have "pow2 k \<le> round_double x"
    using x by (simp add: pow2_add [symmetric] round_double_def q_def)
  moreover have "pow2 j \<le> pow2 k"
    using k(2) by (simp add: pow2_le_iff)
  ultimately show ?thesis by simp
qed

lemma round_double_unit:
  assumes "0 \<le> x" "x \<le> 1"
  shows "0 \<le> round_double x" and "round_double x \<le> 1"
proof -
  show "0 \<le> round_double x" using assms(1) by (rule round_double_nonneg)
  show "round_double x \<le> 1"
  proof (cases "x = 0")
    case True
    then show ?thesis by (simp add: round_double_def)
  next
    case False
    with assms have "0 < x" "x \<le> pow2 0" by (simp_all add: pow2_0)
    then have "round_double x \<le> pow2 0"
      by (rule round_double_le_pow2) simp
    then show ?thesis by (simp add: pow2_0)
  qed
qed

lemma round_double_ge_one: "1 \<le> x \<Longrightarrow> 1 \<le> round_double x"
  using round_double_ge_pow2 [of 0 x] by (simp add: pow2_0)

lemma round_double_abs_unit: "\<bar>x\<bar> \<le> 1 \<Longrightarrow> \<bar>round_double x\<bar> \<le> 1"
proof (cases "0 \<le> x")
  case True
  assume "\<bar>x\<bar> \<le> 1"
  with True round_double_unit [of x] show ?thesis by simp
next
  case False
  assume "\<bar>x\<bar> \<le> 1"
  with False round_double_unit [of "- x"] show ?thesis
    by (simp add: round_double_minus)
qed

lemma no_overflow_unit: "\<bar>x\<bar> \<le> 1 \<Longrightarrow> \<not> double_overflow x"
proof -
  assume "\<bar>x\<bar> \<le> 1"
  then have "\<bar>round_double x\<bar> \<le> 1" by (rule round_double_abs_unit)
  moreover have "(1::rat) < 2 ^ 1024" by simp
  ultimately show ?thesis
    unfolding double_overflow_def by linarith
qed

lemma round_half_even_mono:
  assumes "x \<le> y"
  shows "round_half_even x \<le> round_half_even y"
proof (cases "\<lfloor>x\<rfloor> = \<lfloor>y\<rfloor>")
  case True
  have "x - of_int \<lfloor>x\<rfloor> \<le> y - of_int \<lfloor>y\<rfloor>"
    using assms True by simp
  then show ?thesis
    unfolding round_half_even_def Let_def True by auto
next
  case False
  have "\<lfloor>x\<rfloor> \<le> \<lfloor>y\<rfloor>" using assms by (rule floor_mono)
  with False have "\<lfloor>x\<rfloor> + 1 \<le> \<lfloor>y\<rfloor>" by simp
  moreover have "round_half_even x \<le> \<lfloor>x\<rfloor> + 1"
    by (simp add: round_half_even_def Let_def)
  ultimately show ?thesis
    using round_half_even_floor [of y] by linarith
qed

lemma ilog2_mono:
  assumes "0 < x" "x \<le> y"
  shows "ilog2 x \<le> ilog2 y"
proof -
  have "pow2 (ilog2 x) \<le> y"
    using ilog2_bounds(1) [OF assms(1)] assms(2) by simp
  then show ?thesis by (rule ilog2_ge)
qed

lemma round_double_mono_pos:
  assumes "0 < x" "x \<le> y"
  shows "round_double x \<le> round_double y"
proof -
  have y: "0 < y" using assms by simp
  have e: "ilog2 x \<le> ilog2 y" using assms by (rule ilog2_mono)
  then have u: "ulp_exp x \<le> ulp_exp y"
    using assms y by (simp add: ulp_exp_def)
  show ?thesis
  proof (cases "ulp_exp x = ulp_exp y")
    case True
    have "x / pow2 (ulp_exp y) \<le> y / pow2 (ulp_exp y)"
      using assms(2) pow2_pos [of "ulp_exp y"] by (simp add: divide_right_mono)
    then have "round_half_even (x / pow2 (ulp_exp y)) \<le> round_half_even (y / pow2 (ulp_exp y))"
      by (rule round_half_even_mono)
    then have "(of_int (round_half_even (x / pow2 (ulp_exp y))) :: rat)
               \<le> of_int (round_half_even (y / pow2 (ulp_exp y)))"
      by (simp only: of_int_le_iff)
    then show ?thesis
      using assms(1) y True pow2_pos [of "ulp_exp y"]
      by (simp add: round_double_def mult_right_mono)
  next
    case False
    with u have lt: "ulp_exp x < ulp_exp y" by simp
    then have ey: "- 1074 \<le> ilog2 y" and exy: "ilog2 x + 1 \<le> ilog2 y"
      using assms(1) y by (auto simp: ulp_exp_def)
    define j where "j = max (ilog2 x + 1) (- 1074)"
    have j: "- 1074 \<le> j" "j \<le> ilog2 y" "ilog2 x + 1 \<le> j"
      using ey exy by (simp_all add: j_def)
    have "x \<le> pow2 (ilog2 x + 1)"
      using ilog2_bounds(2) [OF assms(1)] by simp
    also have "\<dots> \<le> pow2 j" using j(3) by (rule pow2_mono)
    finally have "round_double x \<le> pow2 j"
      using assms(1) j(1) by (intro round_double_le_pow2)
    also have "pow2 j \<le> pow2 (ilog2 y)" using j(2) by (rule pow2_mono)
    also have "\<dots> \<le> round_double y"
      using ilog2_bounds(1) [OF y] ey by (intro round_double_ge_pow2)
    finally show ?thesis .
  qed
qed

lemma round_double_0: "round_double 0 = 0"
  by (simp add: round_double_def)

lemma round_double_mono:
  assumes "x \<le> y"
  shows "round_double x \<le> round_double y"
proof -
  consider "0 < x" | "x = 0" | "x < 0" "0 \<le> y" | "x < 0" "y < 0" by linarith
  then show ?thesis
  proof cases
    case 1
    then show ?thesis using assms by (rule round_double_mono_pos)
  next
    case 2
    then show ?thesis using assms round_double_nonneg [of y] by (simp add: round_double_0)
  next
    case 3
    then have "0 \<le> round_double (- x)" "0 \<le> round_double y"
      by (simp_all add: round_double_nonneg)
    then show ?thesis by (simp add: round_double_minus)
  next
    case 4
    then have "round_double (- y) \<le> round_double (- x)"
      using assms by (intro round_double_mono_pos) simp_all
    then show ?thesis by (simp add: round_double_minus)
  qed
qed

text \<open>A number with at most 53 significant bits above the subnormal exponent is a double.\<close>

lemma round_double_exact_pos:
  assumes "0 < m" "m < 2 ^ 53" "- 1074 \<le> q"
  shows "round_double (of_int m * pow2 q) = of_int m * pow2 q"
proof -
  define x where "x = (of_int m :: rat) * pow2 q"
  have x: "0 < x" using assms(1) pow2_pos [of q] by (simp add: x_def)
  have "(of_int m :: rat) < of_int (2 ^ 53)"
    using assms(2) by (simp only: of_int_less_iff)
  then have "x < pow2 53 * pow2 q"
    using pow2_pos [of q] by (simp add: x_def pow2_nat)
  then have "x < pow2 (53 + q)" by (simp add: pow2_add)
  then have "pow2 (ilog2 x) < pow2 (53 + q)"
    using ilog2_bounds(1) [OF x] by simp
  then have "ilog2 x < 53 + q" by (simp add: pow2_less_iff)
  then have u: "ulp_exp x \<le> q"
    using x assms(3) by (simp add: ulp_exp_def)
  define u where "u = ulp_exp x"
  have "x / pow2 u = of_int m * pow2 (q - u)"
    by (simp add: x_def pow2_diff)
  also have "\<dots> = of_int (m * 2 ^ nat (q - u))"
    using u by (simp add: pow2_nat u_def)
  finally have "round_half_even (x / pow2 u) = m * 2 ^ nat (q - u)"
    by (simp only: round_half_even_of_int)
  then have "round_double x = of_int (m * 2 ^ nat (q - u)) * pow2 u"
    using x by (simp add: round_double_def u_def)
  also have "\<dots> = of_int m * (pow2 (q - u) * pow2 u)"
    using u by (simp add: pow2_nat u_def)
  also have "\<dots> = x"
    by (simp add: pow2_add [symmetric] x_def)
  finally show ?thesis by (simp add: x_def)
qed

lemma round_double_exact:
  assumes "\<bar>m\<bar> < 2 ^ 53" "- 1074 \<le> q"
  shows "round_double (of_int m * pow2 q) = of_int m * pow2 q"
proof -
  consider "0 < m" | "m = 0" | "m < 0" by linarith
  then show ?thesis
  proof cases
    case 1
    then show ?thesis using assms by (intro round_double_exact_pos) simp_all
  next
    case 2
    then show ?thesis by (simp add: round_double_0)
  next
    case 3
    then have "round_double (of_int (- m) * pow2 q) = of_int (- m) * pow2 q"
      using assms by (intro round_double_exact_pos) simp_all
    then show ?thesis
      using round_double_minus [of "of_int m * pow2 q"] by simp
  qed
qed

lemma round_double_pow2: "- 1074 \<le> q \<Longrightarrow> round_double (pow2 q) = pow2 q"
  using round_double_exact [of 1 q] by simp

lemma round_double_le_exact:
  assumes "x \<le> of_int m * pow2 q" "\<bar>m\<bar> < 2 ^ 53" "- 1074 \<le> q"
  shows "round_double x \<le> of_int m * pow2 q"
  using round_double_mono [OF assms(1)] round_double_exact [OF assms(2,3)] by simp

lemma round_double_ge_exact:
  assumes "of_int m * pow2 q \<le> x" "\<bar>m\<bar> < 2 ^ 53" "- 1074 \<le> q"
  shows "of_int m * pow2 q \<le> round_double x"
  using round_double_mono [OF assms(1)] round_double_exact [OF assms(2,3)] by simp

section \<open>The binomial coefficient is exact\<close>

lemma ncr_denom_fact: "ncr_denom n r = fact (nat (min r (n - r)))"
  by (simp add: ncr_denom_eq ncr_r_def)

lemma ncr_numer_prod: "ncr_numer n r = (\<Prod>i = 0 ..< nat (min r (n - r)). n - int i)"
  by (simp add: ncr_numer_def reduce_mul_prod_list py_range_down prod_list_upt ncr_r_def)

lemma ncr_denom_dvd:
  assumes "0 \<le> r" "r \<le> n"
  shows "ncr_denom n r dvd ncr_numer n r"
  unfolding ncr_numer_eq [OF assms] ncr_denom_eq by simp

text \<open>
  Claim C4.  For integers \<open>0 \<le> r \<le> n\<close>, \<open>ncr n r\<close> returns (without raising) the exact
  integer \<open>n! / (r! (n-r)!)\<close>, which is the binomial coefficient.  It computes it from the
  smaller \<open>r' = min r (n - r)\<close> of \<open>r\<close> and \<open>n - r\<close>: the numerator is the product of the \<open>r'\<close>
  factors \<open>n, n - 1, \<dots>, n - r' + 1\<close>, the denominator is \<open>r'!\<close>, and the result is their integer
  quotient.
\<close>

theorem ncr_exact:
  assumes "0 \<le> r" "r \<le> n"
  shows "ncr n r = Returns (fact (nat n) div (fact (nat r) * fact (nat (n - r))))
         \<and> ncr n r = Returns (int (nat n choose nat r))
         \<and> ncr n r = py_floordiv (reduce_mul (py_range n (n - min r (n - r)) (- 1)))
                                    (reduce_mul (py_range 1 (min r (n - r) + 1) 1))
         \<and> ncr_r n r = min r (n - r)
         \<and> ncr_numer n r = (\<Prod>i = 0 ..< nat (min r (n - r)). n - int i)
         \<and> ncr_denom n r = fact (nat (min r (n - r)))
         \<and> ncr n r = Returns (ncr_numer n r div ncr_denom n r)"
proof -
  have 1: "ncr n r = Returns (int (nat n choose nat r))"
    by (rule ncr_choose [OF assms])
  have "nat r \<le> nat n" using assms by simp
  from binomial_fact' [OF this]
  have "int (nat n choose nat r) = int (fact (nat n) div (fact (nat r) * fact (nat n - nat r)))"
    by simp
  also have "\<dots> = fact (nat n) div (fact (nat r) * fact (nat (n - r)))"
    using assms by (simp add: nat_diff_distrib zdiv_int)
  finally have 2: "ncr n r = Returns (fact (nat n) div (fact (nat r) * fact (nat (n - r))))"
    using 1 by simp
  have 3: "ncr n r = py_floordiv (reduce_mul (py_range n (n - min r (n - r)) (- 1)))
                                 (reduce_mul (py_range 1 (min r (n - r) + 1) 1))"
    by (simp add: ncr_def ncr_numer_def ncr_denom_def ncr_r_def)
  have 4: "ncr_r n r = min r (n - r)"
    by (simp add: ncr_r_def)
  have 5: "ncr_numer n r = (\<Prod>i = 0 ..< nat (min r (n - r)). n - int i)"
    by (rule ncr_numer_prod)
  have 6: "ncr_denom n r = fact (nat (min r (n - r)))"
    by (rule ncr_denom_fact)
  have "ncr_denom n r \<noteq> 0"
    unfolding 6 by simp
  then have 7: "ncr n r = Returns (ncr_numer n r div ncr_denom n r)"
    by (simp add: ncr_def py_floordiv_def)
  from 1 2 3 4 5 6 7 show ?thesis by (intro conjI)
qed

theorem ncr_exact_witness:
  "ncr 10 3 = Returns 120 \<and> ncr 0 0 = Returns 1 \<and> ncr 5 5 = Returns 1
   \<and> ncr 10 7 = Returns 120 \<and> ncr_r 10 7 = 3 \<and> ncr_numer 10 7 = 10 * 9 * 8
   \<and> ncr_denom 10 7 = 6"
  using ncr_exact [of 3 10] ncr_exact [of 0 0] ncr_exact [of 5 5] ncr_exact [of 7 10]
  by (simp add: fact_numeral numeral_eq_Suc)

text \<open>
  Claim C10.  For integers \<open>0 \<le> r \<le> n\<close> the floor division inside \<open>ncr\<close> is exact: the
  denominator is \<open>r'!\<close> for \<open>r' = min r (n - r)\<close>, it is not zero, and it divides the
  numerator \<open>n (n-1) \<dots> (n-r'+1)\<close> with remainder zero; so the value \<open>ncr\<close> returns, multiplied
  by the denominator, gives back the numerator: nothing is truncated.
\<close>

theorem ncr_division_exact:
  assumes "0 \<le> r" "r \<le> n"
  shows "ncr_denom n r = fact (nat (min r (n - r)))
         \<and> ncr_numer n r = (\<Prod>i = 0 ..< nat (min r (n - r)). n - int i)
         \<and> ncr_denom n r \<noteq> 0
         \<and> ncr_denom n r dvd ncr_numer n r
         \<and> ncr_numer n r mod ncr_denom n r = 0
         \<and> ncr n r = py_floordiv (ncr_numer n r) (ncr_denom n r)
         \<and> (\<exists>q. ncr n r = Returns q \<and> q * ncr_denom n r = ncr_numer n r)"
proof -
  have d: "ncr_denom n r = fact (nat (min r (n - r)))"
    by (rule ncr_denom_fact)
  have n: "ncr_numer n r = (\<Prod>i = 0 ..< nat (min r (n - r)). n - int i)"
    by (rule ncr_numer_prod)
  have nz: "ncr_denom n r \<noteq> 0"
    unfolding d by simp
  have dv: "ncr_denom n r dvd ncr_numer n r"
    using assms by (rule ncr_denom_dvd)
  then have m: "ncr_numer n r mod ncr_denom n r = 0"
    by simp
  have f: "ncr n r = py_floordiv (ncr_numer n r) (ncr_denom n r)"
    by (simp add: ncr_def)
  have "ncr n r = Returns (ncr_numer n r div ncr_denom n r)"
    using nz by (simp add: ncr_def py_floordiv_def)
  moreover have "ncr_numer n r div ncr_denom n r * ncr_denom n r = ncr_numer n r"
    using dv by simp
  ultimately have q: "\<exists>q. ncr n r = Returns q \<and> q * ncr_denom n r = ncr_numer n r"
    by blast
  from d n nz dv m f q show ?thesis by (intro conjI)
qed

theorem ncr_division_exact_witness:
  "ncr_denom 10 3 = 6 \<and> ncr_numer 10 3 = 720 \<and> ncr_numer 10 3 mod ncr_denom 10 3 = 0
   \<and> ncr 10 3 = Returns 120 \<and> 120 * ncr_denom 10 3 = ncr_numer 10 3"
  using ncr_division_exact [of 3 10]
  by (simp add: fact_numeral numeral_eq_Suc py_floordiv_def)

section \<open>The best-candidate selector\<close>

lemma select_step_cases: "select_step b tp = b \<or> select_step b tp = tp"
  by (simp add: select_step_def Let_def)

lemma select_step_le_old: "tau_then_M_le (select_step b tp) b"
  by (auto simp: select_step_def tau_then_M_le_def Let_def)

lemma select_step_le_new: "tau_then_M_le (select_step b tp) tp"
  by (auto simp: select_step_def tau_then_M_le_def Let_def)

lemma tau_then_M_le_trans: "tau_then_M_le p q \<Longrightarrow> tau_then_M_le q r \<Longrightarrow> tau_then_M_le p r"
  by (auto simp: tau_then_M_le_def)

lemma select_scan:
  "foldl select_step b lst \<in> insert b (set lst)
   \<and> tau_then_M_le (foldl select_step b lst) b
   \<and> (\<forall>e \<in> set lst. tau_then_M_le (foldl select_step b lst) e)"
proof (induction lst arbitrary: b)
  case Nil
  show ?case by (simp add: tau_then_M_le_def)
next
  case (Cons tp lst)
  let ?b = "select_step b tp"
  let ?r = "foldl select_step ?b lst"
  from Cons [of ?b] have mem: "?r \<in> insert ?b (set lst)" and le: "tau_then_M_le ?r ?b"
    and all: "\<forall>e \<in> set lst. tau_then_M_le ?r e"
    by blast+
  have "?r \<in> insert b (set (tp # lst))"
    using mem select_step_cases [of b tp] by auto
  moreover have "tau_then_M_le ?r b"
    using le select_step_le_old by (rule tau_then_M_le_trans)
  moreover have "tau_then_M_le ?r tp"
    using le select_step_le_new by (rule tau_then_M_le_trans)
  ultimately show ?case
    using all by simp
qed

text \<open>
  Claim C2.  For every candidate list whose entries have \<open>M \<le> 504\<close> and \<open>tau \<le> 48\<close>, the
  holder left by the scan from the sentinel is below every candidate in the order
  "smaller tau first, then smaller M", and for a non-empty list it is one of the candidates.
\<close>

theorem select_best_minimal:
  assumes "\<forall>(M, tau) \<in> set lst. M \<le> 504 \<and> tau \<le> 48"
  shows "(\<forall>e \<in> set lst. tau_then_M_le (select_best lst) e)
         \<and> (lst \<noteq> [] \<longrightarrow> select_best lst \<in> set lst)"
proof -
  note scan = select_scan [of sentinel lst, folded select_best_def]
  have "select_best lst \<in> set lst" if "lst \<noteq> []"
  proof (rule ccontr)
    assume "select_best lst \<notin> set lst"
    with scan have s: "select_best lst = sentinel" by auto
    from that obtain e where e: "e \<in> set lst" by (cases lst) auto
    with scan s have "tau_then_M_le sentinel e" by auto
    moreover from assms e have "snd e \<le> 48" by auto
    ultimately show False
      by (simp add: tau_then_M_le_def sentinel_def)
  qed
  with scan show ?thesis by blast
qed

theorem select_best_minimal_witness:
  "select_best [(72, 16), (64, 16), (80, 24)] = (64, 16)
   \<and> tau_then_M_le (select_best [(72, 16), (64, 16), (80, 24)]) (72, 16)
   \<and> tau_then_M_le (select_best [(72, 16), (64, 16), (80, 24)]) (80, 24)
   \<and> select_best [(72, 16), (64, 16), (80, 24)] \<in> set [(72, 16), (64, 16), (80, 24)]"
  using select_best_minimal [of "[(72, 16), (64, 16), (80, 24)]"]
  by (simp add: select_best_def select_step_def sentinel_def)

section \<open>Rounding is to a nearest float\<close>

text \<open>
  Rounding is to a nearest point of the grid: the result is a multiple of the unit in the
  last place, at most half a unit away, and it is a binary64 number again.
\<close>

lemma round_half_even_error: "\<bar>of_int (round_half_even x) - x\<bar> \<le> 1 / 2"
proof -
  have "of_int \<lfloor>x\<rfloor> \<le> x" "x < of_int \<lfloor>x\<rfloor> + 1"
    by linarith+
  then show ?thesis
    by (auto simp: round_half_even_def Let_def abs_le_iff)
qed

lemma round_double_error: "\<bar>round_double x - x\<bar> \<le> pow2 (ulp_exp x) / 2"
proof (cases "x = 0")
  case True
  then show ?thesis using pow2_pos [of "ulp_exp 0"] by (simp add: round_double_def)
next
  case False
  define u where "u = pow2 (ulp_exp x)"
  have u: "0 < u" by (simp add: u_def pow2_pos)
  have "round_double x - x = (of_int (round_half_even (x / u)) - x / u) * u"
    using False u by (simp add: round_double_def u_def field_simps)
  then have "\<bar>round_double x - x\<bar> = \<bar>of_int (round_half_even (x / u)) - x / u\<bar> * u"
    using u by (simp add: abs_mult)
  also have "\<dots> \<le> 1 / 2 * u"
    using round_half_even_error [of "x / u"] u by (intro mult_right_mono) simp_all
  finally show ?thesis by (simp add: u_def)
qed

lemma round_double_representable:
  "\<exists>m q. round_double x = of_int m * pow2 q \<and> \<bar>m\<bar> < 2 ^ 53 \<and> - 1074 \<le> q"
proof -
  have pos: "\<exists>m q. round_double x = of_int m * pow2 q \<and> \<bar>m\<bar> < 2 ^ 53 \<and> - 1074 \<le> q"
    if x: "0 < x" for x
  proof -
    define u where "u = ulp_exp x"
    define k where "k = round_half_even (x / pow2 u)"
    have u: "- 1074 \<le> u" "ilog2 x + 1 \<le> u + 53"
      using x by (simp_all add: u_def ulp_exp_def)
    have rd: "round_double x = of_int k * pow2 u"
      using x by (simp add: round_double_def k_def u_def)
    have "x < pow2 (ilog2 x + 1)" using x by (rule ilog2_bounds(2))
    also have "\<dots> \<le> pow2 (u + 53)" using u(2) by (rule pow2_mono)
    finally have "x / pow2 u < pow2 (u + 53) / pow2 u"
      using pow2_pos [of u] by (simp add: divide_strict_right_mono)
    also have "\<dots> = of_int (2 ^ 53)"
      using pow2_diff [of "u + 53" u] by (simp add: pow2_nat)
    finally have "k \<le> 2 ^ 53"
      unfolding k_def by (intro round_half_even_le) simp
    moreover have "0 \<le> k"
      unfolding k_def using x pow2_pos [of u] by (intro round_half_even_ge) simp
    ultimately consider "\<bar>k\<bar> < 2 ^ 53" | "k = 2 ^ 53" by linarith
    then show ?thesis
    proof cases
      case 1
      with rd u(1) show ?thesis by blast
    next
      case 2
      have "round_double x = of_int 1 * pow2 (u + 53)"
        by (simp add: rd 2 pow2_add pow2_nat)
      moreover have "\<bar>1 :: int\<bar> < 2 ^ 53" "- 1074 \<le> u + 53"
        using u(1) by simp_all
      ultimately show ?thesis by blast
    qed
  qed
  consider "0 < x" | "x = 0" | "x < 0" by linarith
  then show ?thesis
  proof cases
    case 1
    then show ?thesis by (rule pos)
  next
    case 2
    have "round_double x = of_int 0 * pow2 0" by (simp add: 2 round_double_0)
    moreover have "\<bar>0 :: int\<bar> < 2 ^ 53" "- 1074 \<le> (0 :: int)" by simp_all
    ultimately show ?thesis by blast
  next
    case 3
    then have "0 < - x" by simp
    from pos [OF this] obtain m q where
      "round_double (- x) = of_int m * pow2 q" "\<bar>m\<bar> < 2 ^ 53" "- 1074 \<le> q"
      by blast
    then have "round_double x = of_int (- m) * pow2 q \<and> \<bar>- m\<bar> < 2 ^ 53 \<and> - 1074 \<le> q"
      by (simp add: round_double_minus)
    then show ?thesis by blast
  qed
qed

lemma round_double_idem: "round_double (round_double x) = round_double x"
proof -
  from round_double_representable [of x] obtain m q where
    "round_double x = of_int m * pow2 q" "\<bar>m\<bar> < 2 ^ 53" "- 1074 \<le> q"
    by blast
  then show ?thesis
    using round_double_exact [of m q] by simp
qed

lemma round_double_abs: "\<bar>round_double x\<bar> = round_double \<bar>x\<bar>"
proof (cases "0 \<le> x")
  case True
  then show ?thesis using round_double_nonneg [of x] by simp
next
  case False
  then have "0 \<le> round_double (- x)" by (intro round_double_nonneg) simp
  with False show ?thesis by (simp add: round_double_minus)
qed

text \<open>
  Dividing a float by a float of magnitude at least one gives no infinity, and a non-zero
  integer becomes a float of magnitude at least one.
\<close>

lemma float_div_finite:
  assumes "\<not> double_overflow x" "1 \<le> \<bar>y\<bar>"
  shows "\<not> double_overflow (round_double x / y)"
proof -
  have "\<bar>round_double x\<bar> * 1 \<le> \<bar>round_double x\<bar> * \<bar>y\<bar>"
    using assms(2) by (intro mult_left_mono) simp_all
  then have "\<bar>round_double x\<bar> / \<bar>y\<bar> \<le> \<bar>round_double x\<bar>"
    using assms(2) by (simp add: pos_divide_le_eq)
  then have "\<bar>round_double x / y\<bar> \<le> \<bar>round_double x\<bar>"
    by simp
  then have "round_double \<bar>round_double x / y\<bar> \<le> round_double \<bar>round_double x\<bar>"
    by (rule round_double_mono)
  moreover have "round_double \<bar>round_double x / y\<bar> = \<bar>round_double (round_double x / y)\<bar>"
    by (rule round_double_abs [symmetric])
  moreover have "round_double \<bar>round_double x\<bar> = \<bar>round_double x\<bar>"
    unfolding round_double_abs [symmetric] round_double_idem ..
  ultimately have "\<bar>round_double (round_double x / y)\<bar> \<le> \<bar>round_double x\<bar>"
    by (simp only:)
  with assms(1) show ?thesis
    by (simp add: double_overflow_def)
qed

lemma float_of_int_magnitude:
  assumes "c \<noteq> 0"
  shows "1 \<le> \<bar>round_double (of_int c)\<bar>"
proof -
  have "1 \<le> \<bar>c\<bar>" using assms by simp
  then have "(of_int 1 :: rat) \<le> of_int \<bar>c\<bar>" by (simp only: of_int_le_iff)
  then have "1 \<le> \<bar>of_int c :: rat\<bar>" by simp
  then have "1 \<le> round_double \<bar>of_int c\<bar>" by (rule round_double_ge_one)
  then show ?thesis by (simp add: round_double_abs)
qed

section \<open>The soundness error\<close>

lemma ncr_total: "\<exists>v. ncr n r = Returns v \<and> 1 \<le> v"
proof (cases "0 \<le> r \<and> r \<le> n")
  case True
  then have "ncr n r = Returns (int (nat n choose nat r))"
    by (simp add: ncr_choose)
  moreover have "1 \<le> int (nat n choose nat r)"
    using True zero_less_binomial [of "nat r" "nat n"] by linarith
  ultimately show ?thesis by simp
next
  case False
  then have "ncr n r = Returns 1"
    by (intro ncr_outside) auto
  then show ?thesis by simp
qed

lemma ncr_in_range:
  assumes "0 < tau" "tau < M" "M - tau + 1 \<le> rho" "rho \<le> M"
  shows "\<exists>a b. ncr rho (M - tau) = Returns a \<and> ncr M (M - tau) = Returns b \<and> 1 \<le> a \<and> a \<le> b"
proof -
  have a: "ncr rho (M - tau) = Returns (int (nat rho choose nat (M - tau)))"
    using assms by (intro ncr_choose) auto
  have b: "ncr M (M - tau) = Returns (int (nat M choose nat (M - tau)))"
    using assms by (intro ncr_choose) auto
  have "1 \<le> int (nat rho choose nat (M - tau))"
    using assms zero_less_binomial [of "nat (M - tau)" "nat rho"] by linarith
  moreover have "nat rho choose nat (M - tau) \<le> nat M choose nat (M - tau)"
    using assms by (intro binomial_right_mono) auto
  then have "int (nat rho choose nat (M - tau)) \<le> int (nat M choose nat (M - tau))"
    by (simp only: of_nat_le_iff)
  ultimately show ?thesis
    unfolding a b by blast
qed

lemma int_truediv_unit:
  assumes "1 \<le> a" "a \<le> b"
  shows "\<exists>d. int_truediv a b = Returns d \<and> 0 \<le> d \<and> d \<le> 1"
proof -
  have q: "0 \<le> (of_int a / of_int b :: rat)" "(of_int a / of_int b :: rat) \<le> 1"
    using assms by simp_all
  then have "\<not> double_overflow (of_int a / of_int b)"
    by (intro no_overflow_unit) simp
  moreover have "b \<noteq> 0" using assms by simp
  ultimately have "int_truediv a b = Returns (round_double (of_int a / of_int b))"
    by (simp add: int_truediv_def)
  with round_double_unit [OF q] show ?thesis by simp
qed

lemma float_div_num_unit:
  assumes "0 \<le> d" "d \<le> 1" "1 \<le> c"
  shows "float_div_num d (Int_num c) = Raises OverflowError
         \<or> (\<exists>e. float_div_num d (Int_num c) = Returns (Finite e) \<and> 0 \<le> e \<and> e \<le> 1)"
proof (cases "double_overflow (of_int c)")
  case True
  then show ?thesis by (simp add: float_div_num_def float_of_int_def)
next
  case False
  define cf where "cf = round_double (of_int c)"
  have cf: "1 \<le> cf"
    unfolding cf_def using assms(3) by (intro round_double_ge_one) simp
  have q: "0 \<le> d / cf" "d / cf \<le> 1"
    using assms(1,2) cf by (simp_all add: field_simps)
  then have "\<not> double_overflow (d / cf)"
    by (intro no_overflow_unit) simp
  then have "float_div_num d (Int_num c) = Returns (Finite (round_double (d / cf)))"
    using False cf by (simp add: float_div_num_def float_of_int_def float_div_def cf_def)
  with round_double_unit [OF q] show ?thesis by simp
qed

lemma err_sg_try_unit:
  assumes "1 \<le> a" "a \<le> b" "1 \<le> c"
  shows "\<exists>e. except_overflow (err_sg_try a b (Int_num c)) = Returns (Finite e) \<and> 0 \<le> e \<and> e \<le> 1"
proof -
  from int_truediv_unit [OF assms(1,2)]
  obtain d where d: "int_truediv a b = Returns d" "0 \<le> d" "d \<le> 1" by blast
  from float_div_num_unit [OF d(2,3) assms(3)] show ?thesis
    by (auto simp: err_sg_try_def d(1))
qed

lemma err_sg_unit:
  assumes "0 < tau" "tau < M" "1 \<le> n" "M - tau + 1 \<le> rho" "rho \<le> M"
  shows "\<exists>e. err_sg M tau n rho = Returns (Finite e) \<and> 0 \<le> e \<and> e \<le> 1"
proof -
  from ncr_in_range [OF assms(1,2,4,5)]
  obtain a b where ab: "ncr rho (M - tau) = Returns a" "ncr M (M - tau) = Returns b"
    "1 \<le> a" "a \<le> b" by blast
  have k: "0 \<le> rho - M + tau" using assms by simp
  have c: "1 \<le> n ^ nat (rho - M + tau)"
    using assms(3) by simp
  from err_sg_try_unit [OF ab(3,4) c] show ?thesis
    by (simp add: err_sg_def ab(1,2) py_pow_def k)
qed

text \<open>
  With an integer \<open>c\<close> the body of the \<open>try\<close> returns a finite float or raises: the
  quotient \<open>d / c\<close> is no larger than \<open>d\<close>.  So does every call of \<open>err_sg\<close> whose exponent
  is not negative, which are the calls \<open>err\<close> makes.
\<close>

lemma err_sg_try_int:
  "(\<exists>e. err_sg_try a b (Int_num c) = Returns (Finite e)) \<or> (\<exists>x. err_sg_try a b (Int_num c) = Raises x)"
proof (cases "b = 0 \<or> double_overflow (of_int a / of_int b)")
  case True
  then show ?thesis by (auto simp: err_sg_try_def int_truediv_def)
next
  case False
  then have d: "int_truediv a b = Returns (round_double (of_int a / of_int b))"
    by (simp add: int_truediv_def)
  show ?thesis
  proof (cases "double_overflow (of_int c)")
    case True
    then show ?thesis by (simp add: err_sg_try_def d float_div_num_def float_of_int_def)
  next
    case no: False
    show ?thesis
    proof (cases "c = 0")
      case True
      then show ?thesis
        using no by (simp add: err_sg_try_def d float_div_num_def float_of_int_def float_div_def
            round_double_0)
    next
      case nz: False
      from float_div_finite [OF _ float_of_int_magnitude [OF nz]] False
      have "\<not> double_overflow (round_double (of_int a / of_int b) / round_double (of_int c))"
        by simp
      then show ?thesis
        using no by (simp add: err_sg_try_def d float_div_num_def float_of_int_def float_div_def)
    qed
  qed
qed

lemma err_sg_inside:
  assumes "0 \<le> rho - M + tau"
  shows "(\<exists>e. err_sg M tau n rho = Returns (Finite e)) \<or> (\<exists>x. err_sg M tau n rho = Raises x)"
proof -
  from ncr_total [of rho "M - tau"] obtain a where a: "ncr rho (M - tau) = Returns a" by blast
  from ncr_total [of M "M - tau"] obtain b where b: "ncr M (M - tau) = Returns b" by blast
  have "(\<exists>e. except_overflow r = Returns (Finite e)) \<or> (\<exists>x. except_overflow r = Raises x)"
    if "(\<exists>e. r = Returns (Finite e)) \<or> (\<exists>x. r = Raises x)" for r
    using that by (cases r rule: except_overflow.cases) auto
  from this [OF err_sg_try_int] assms show ?thesis
    by (simp add: err_sg_def a b py_pow_def)
qed

lemma err_sg_in_range_finite:
  assumes "err_sg M tau n rho = Returns v" "M - tau + 1 \<le> rho"
  shows "\<exists>x. v = Finite x"
  using err_sg_inside [of rho M tau n] assms by auto

lemma set_py_range_step1: "set (py_range a b 1) = {a ..< b}"
proof -
  have len: "nat (range_len a b 1) = nat (b - a)"
    by (simp add: range_len_def)
  have "(\<lambda>i. a + int i) ` {0 ..< nat (b - a)} = {a ..< b}"
  proof (intro set_eqI iffI)
    fix x assume "x \<in> (\<lambda>i. a + int i) ` {0 ..< nat (b - a)}"
    then show "x \<in> {a ..< b}" by auto
  next
    fix x assume x: "x \<in> {a ..< b}"
    then have "x = a + int (nat (x - a))" "nat (x - a) \<in> {0 ..< nat (b - a)}"
      by auto
    then show "x \<in> (\<lambda>i. a + int i) ` {0 ..< nat (b - a)}" by (rule image_eqI)
  qed
  then show ?thesis
    by (simp add: py_range_def len)
qed

lemma set_rho_range: "set (py_range (M - tau + 1) (M + 1) 1) = {M - tau + 1 .. M}"
  by (auto simp: set_py_range_step1)

lemma err_loop_returns:
  assumes "\<forall>rho \<in> set rhos. \<exists>v. err_sg M tau n rho = Returns (Finite v)"
  shows "\<exists>b. err_loop M tau n rhos (Finite base) = Returns (Finite b) \<and> base \<le> b
           \<and> (\<forall>rho \<in> set rhos. \<exists>v. err_sg M tau n rho = Returns (Finite v) \<and> v \<le> b)
           \<and> (b = base \<or> (\<exists>rho \<in> set rhos. err_sg M tau n rho = Returns (Finite b)))"
  using assms
proof (induction rhos arbitrary: base)
  case Nil
  show ?case by simp
next
  case (Cons rho rhos)
  from Cons.prems obtain v where v: "err_sg M tau n rho = Returns (Finite v)" by auto
  define base' where "base' = (if base < v then v else base)"
  have rest: "\<forall>rho \<in> set rhos. \<exists>v. err_sg M tau n rho = Returns (Finite v)"
    using Cons.prems by simp
  from Cons.IH [OF rest, of base']
  obtain b where b: "err_loop M tau n rhos (Finite base') = Returns (Finite b)" "base' \<le> b"
    "\<forall>rho \<in> set rhos. \<exists>v. err_sg M tau n rho = Returns (Finite v) \<and> v \<le> b"
    "b = base' \<or> (\<exists>rho \<in> set rhos. err_sg M tau n rho = Returns (Finite b))"
    by blast
  have 1: "err_loop M tau n (rho # rhos) (Finite base) = Returns (Finite b)"
    using b(1) by (cases "base < v") (simp_all add: v base'_def)
  have 2: "base \<le> b" "v \<le> b"
    using b(2) by (auto simp: base'_def split: if_splits)
  have 3: "b = base \<or> (\<exists>r \<in> set (rho # rhos). err_sg M tau n r = Returns (Finite b))"
    using b(4) v by (auto simp: base'_def split: if_splits)
  from 1 2 3 b(3) v show ?case by auto
qed

lemma err_loop_needs_all:
  "err_loop M tau n rhos base = Returns b \<Longrightarrow> rho \<in> set rhos \<Longrightarrow> \<exists>v. err_sg M tau n rho = Returns v"
proof (induction rhos arbitrary: base)
  case Nil
  then show ?case by simp
next
  case (Cons r rhos)
  then show ?case
    by (cases "err_sg M tau n r") auto
qed

lemma err_base_returns:
  assumes "\<forall>rho \<in> {M - tau + 1 .. M}. \<exists>v. err_sg M tau n rho = Returns (Finite v)"
  shows "\<exists>b. err_base M tau n = Returns (Finite b) \<and> 0 \<le> b
           \<and> (\<forall>rho \<in> {M - tau + 1 .. M}. \<exists>v. err_sg M tau n rho = Returns (Finite v) \<and> v \<le> b)
           \<and> (b = 0 \<or> (\<exists>rho \<in> {M - tau + 1 .. M}. err_sg M tau n rho = Returns (Finite b)))"
  using err_loop_returns [of "py_range (M - tau + 1) (M + 1) 1" M tau n 0] assms
  unfolding err_base_def set_rho_range by simp

lemma err_base_needs_all:
  assumes "err_base M tau n = Returns b" "rho \<in> {M - tau + 1 .. M}"
  shows "\<exists>v. err_sg M tau n rho = Returns (Finite v)"
proof -
  from err_loop_needs_all [of M tau n "py_range (M - tau + 1) (M + 1) 1" "Finite 0" b rho] assms
  obtain w where w: "err_sg M tau n rho = Returns w"
    unfolding err_base_def set_rho_range by auto
  from err_sg_in_range_finite [OF w] assms(2) show ?thesis
    using w by auto
qed

lemma target_pos: "0 < target"
  by (simp add: target_def)

lemma err_base_below_iff:
  "(\<exists>b. err_base M tau n = Returns b \<and> float_less b (Finite target))
   \<longleftrightarrow> (\<forall>rho \<in> {M - tau + 1 .. M}. \<exists>v. err_sg M tau n rho = Returns (Finite v) \<and> v < target)"
proof
  assume "\<exists>b. err_base M tau n = Returns b \<and> float_less b (Finite target)"
  then obtain b where b: "err_base M tau n = Returns b" "float_less b (Finite target)" by blast
  have all: "\<forall>rho \<in> {M - tau + 1 .. M}. \<exists>v. err_sg M tau n rho = Returns (Finite v)"
    using err_base_needs_all [OF b(1)] by blast
  from err_base_returns [OF all] b
  show "\<forall>rho \<in> {M - tau + 1 .. M}. \<exists>v. err_sg M tau n rho = Returns (Finite v) \<and> v < target"
    by fastforce
next
  assume a: "\<forall>rho \<in> {M - tau + 1 .. M}. \<exists>v. err_sg M tau n rho = Returns (Finite v) \<and> v < target"
  then have all: "\<forall>rho \<in> {M - tau + 1 .. M}. \<exists>v. err_sg M tau n rho = Returns (Finite v)"
    by blast
  from err_base_returns [OF all]
  obtain b where b: "err_base M tau n = Returns (Finite b)"
    "b = 0 \<or> (\<exists>rho \<in> {M - tau + 1 .. M}. err_sg M tau n rho = Returns (Finite b))"
    by blast
  have "b < target"
    using b(2) a target_pos by auto
  with b(1) show "\<exists>b. err_base M tau n = Returns b \<and> float_less b (Finite target)" by simp
qed

lemma err_appends_iff_base:
  "err M tau n lst = Returns (lst @ [(M, tau)])
   \<longleftrightarrow> (\<exists>b. err_base M tau n = Returns b \<and> float_less b (Finite target))"
  by (cases "err_base M tau n") (auto simp: err_def)

lemma err_base_in_range:
  assumes "0 < tau" "tau < M" "1 \<le> n"
  shows "\<exists>base. err_base M tau n = Returns (Finite base) \<and> 0 \<le> base \<and> base \<le> 1
           \<and> (\<forall>rho \<in> {M - tau + 1 .. M}. \<exists>v. err_sg M tau n rho = Returns (Finite v) \<and> v \<le> base)
           \<and> (\<exists>rho \<in> {M - tau + 1 .. M}. err_sg M tau n rho = Returns (Finite base))"
proof -
  have unit: "\<exists>e. err_sg M tau n rho = Returns (Finite e) \<and> 0 \<le> e \<and> e \<le> 1"
    if "rho \<in> {M - tau + 1 .. M}" for rho
    using that assms by (intro err_sg_unit) auto
  then have all: "\<forall>rho \<in> {M - tau + 1 .. M}. \<exists>v. err_sg M tau n rho = Returns (Finite v)"
    by blast
  from err_base_returns [OF all]
  obtain b where b: "err_base M tau n = Returns (Finite b)" "0 \<le> b"
    "\<forall>rho \<in> {M - tau + 1 .. M}. \<exists>v. err_sg M tau n rho = Returns (Finite v) \<and> v \<le> b"
    "b = 0 \<or> (\<exists>rho \<in> {M - tau + 1 .. M}. err_sg M tau n rho = Returns (Finite b))"
    by blast
  have M: "M \<in> {M - tau + 1 .. M}" using assms by simp
  have att: "\<exists>rho \<in> {M - tau + 1 .. M}. err_sg M tau n rho = Returns (Finite b)"
  proof (cases "b = 0")
    case True
    from unit [OF M] obtain e where e: "err_sg M tau n M = Returns (Finite e)" "0 \<le> e" by blast
    moreover from b(3) M e(1) have "e \<le> b" by fastforce
    ultimately have "err_sg M tau n M = Returns (Finite b)" using True by simp
    with M show ?thesis by blast
  next
    case False
    with b(4) show ?thesis by simp
  qed
  then obtain rho where "rho \<in> {M - tau + 1 .. M}" "err_sg M tau n rho = Returns (Finite b)" by blast
  with unit [of rho] have "b \<le> 1" by auto
  with b att show ?thesis by blast
qed

text \<open>
  Claim C6.  For \<open>0 < tau < M\<close>, \<open>n \<ge> 1\<close> and \<open>rho\<close> in \<open>[M - tau + 1, M]\<close>, \<open>err_sg\<close> returns a
  value in \<open>[0, 1]\<close>.  (With an overflow it returns \<open>0.0\<close>, which lies in the interval too,
  so the statement needs no side condition.)
\<close>

theorem err_sg_in_unit_interval:
  assumes "0 < tau" "tau < M" "1 \<le> n" "M - tau + 1 \<le> rho" "rho \<le> M"
  shows "\<exists>e. err_sg M tau n rho = Returns (Finite e) \<and> 0 \<le> e \<and> e \<le> 1"
  using assms by (rule err_sg_unit)

theorem err_sg_in_unit_interval_witness:
  "\<exists>e. err_sg 64 8 16 60 = Returns (Finite e) \<and> 0 \<le> e \<and> e \<le> 1"
  using err_sg_in_unit_interval [of 8 64 16 60] by simp

text \<open>
  Claim C1, as amended.  For \<open>0 < tau < M\<close> and \<open>n \<ge> 1\<close> the loop of \<open>err\<close> ends with \<open>base\<close>
  at least every \<open>err_sg M tau n rho\<close> for \<open>rho\<close> in \<open>[M - tau + 1, M]\<close> and equal to the
  maximum of them; \<open>err\<close> compares \<open>base\<close> with the target and hands back the list.
\<close>

theorem err_base_is_maximum:
  assumes "0 < tau" "tau < M" "1 \<le> n"
  shows "\<exists>base. err_base M tau n = Returns (Finite base)
           \<and> (\<forall>rho \<in> {M - tau + 1 .. M}. \<exists>v. err_sg M tau n rho = Returns (Finite v) \<and> v \<le> base)
           \<and> (\<exists>rho \<in> {M - tau + 1 .. M}. err_sg M tau n rho = Returns (Finite base))
           \<and> base = Max {v. \<exists>rho \<in> {M - tau + 1 .. M}. err_sg M tau n rho = Returns (Finite v)}
           \<and> err M tau n lst = Returns (if base < target then lst @ [(M, tau)] else lst)"
proof -
  from err_base_in_range [OF assms]
  obtain base where b: "err_base M tau n = Returns (Finite base)"
    "\<forall>rho \<in> {M - tau + 1 .. M}. \<exists>v. err_sg M tau n rho = Returns (Finite v) \<and> v \<le> base"
    "\<exists>rho \<in> {M - tau + 1 .. M}. err_sg M tau n rho = Returns (Finite base)"
    by blast
  let ?V = "{v. \<exists>rho \<in> {M - tau + 1 .. M}. err_sg M tau n rho = Returns (Finite v)}"
  have "?V \<subseteq> (\<lambda>rho. case err_sg M tau n rho of Returns (Finite v) \<Rightarrow> v | _ \<Rightarrow> 0) ` {M - tau + 1 .. M}"
    by force
  then have fin: "finite ?V"
    by (rule finite_subset) simp
  have "Max ?V = base"
  proof (rule Max_eqI [OF fin])
    show "base \<in> ?V" using b(3) by simp
    show "y \<le> base" if "y \<in> ?V" for y
      using that b(2) by fastforce
  qed
  moreover have "err M tau n lst = Returns (if base < target then lst @ [(M, tau)] else lst)"
    by (simp add: err_def b(1))
  ultimately show ?thesis
    using b by blast
qed

section \<open>Exact values and the pairs that miss the target\<close>

lemma no_overflow_exact:
  assumes "\<bar>m\<bar> < 2 ^ 53" "- 1074 \<le> q" "q \<le> 971"
  shows "\<not> double_overflow (of_int m * pow2 q)"
proof -
  have "\<bar>of_int m * pow2 q\<bar> = of_int \<bar>m\<bar> * pow2 q"
    using pow2_pos [of q] by (simp add: abs_mult)
  also have "(of_int \<bar>m\<bar> :: rat) < of_int (2 ^ 53)"
    using assms(1) by (simp only: of_int_less_iff)
  then have "of_int \<bar>m\<bar> * pow2 q < of_int (2 ^ 53) * pow2 q"
    using pow2_pos [of q] by (simp only: mult_less_cancel_right_pos)
  also have "\<dots> = pow2 (53 + q)"
    by (simp add: pow2_add pow2_nat)
  also have "\<dots> \<le> pow2 1024"
    using assms(3) by (intro pow2_mono) simp
  finally have "\<bar>of_int m * pow2 q\<bar> < 2 ^ 1024"
    by (simp add: pow2_nat)
  then show ?thesis
    by (simp add: double_overflow_def round_double_exact [OF assms(1,2)])
qed

lemma int_truediv_self: "b \<noteq> 0 \<Longrightarrow> int_truediv b b = Returns 1"
  using no_overflow_exact [of 1 0] round_double_exact [of 1 0]
  by (simp add: int_truediv_def pow2_0)

lemma float_of_int_exact:
  assumes "\<bar>c\<bar> < 2 ^ 53"
  shows "float_of_int c = Returns (of_int c)"
  using no_overflow_exact [OF assms, of 0] round_double_exact [OF assms, of 0]
  by (simp add: float_of_int_def pow2_0)

lemma float_div_exact:
  assumes "y \<noteq> 0" "x / y = of_int m * pow2 q" "\<bar>m\<bar> < 2 ^ 53" "- 1074 \<le> q" "q \<le> 971"
  shows "float_div x y = Returns (Finite (x / y))"
  using no_overflow_exact [OF assms(3,4,5)] round_double_exact [OF assms(3,4)] assms(1)
  by (simp add: float_div_def assms(2))


lemma float_of_int_pow2:
  assumes "0 \<le> q" "q \<le> 971"
  shows "float_of_int (2 ^ nat q) = Returns (pow2 q)"
proof -
  have "(of_int (2 ^ nat q) :: rat) = of_int 1 * pow2 q"
    using assms(1) by (simp add: pow2_nat)
  moreover have "\<not> double_overflow (of_int 1 * pow2 q)"
    using assms by (intro no_overflow_exact) simp_all
  moreover have "round_double (pow2 q) = pow2 q"
    using assms(1) by (intro round_double_pow2) simp
  ultimately show ?thesis
    by (simp add: float_of_int_def)
qed

text \<open>At \<open>rho = M\<close> the two binomials are the same number, and the error is \<open>1 / n ^ tau\<close>.\<close>

lemma err_sg_at_M_16_8:
  assumes "8 < M"
  shows "err_sg M 8 16 M = Returns (Finite (1 / 2 ^ 32))"
proof -
  from ncr_total [of M "M - 8"] obtain b where b: "ncr M (M - 8) = Returns b" "1 \<le> b"
    by blast
  have d: "int_truediv b b = Returns 1"
    using b(2) by (intro int_truediv_self) simp
  have c: "float_of_int (16 ^ 8) = Returns (of_int (16 ^ 8))"
    by (rule float_of_int_exact) simp
  have "(1::rat) / of_int (16 ^ 8) = of_int 1 * pow2 (- 32)"
    by (simp add: pow2_def)
  then have e: "float_div 1 (of_int (16 ^ 8)) = Returns (Finite (1 / of_int (16 ^ 8)))"
    by (rule float_div_exact [rotated]) simp_all
  have "err_sg_try b b (Int_num (16 ^ 8)) = Returns (Finite (1 / of_int (16 ^ 8)))"
    unfolding err_sg_try_def d float_div_num_def number.case c bind.simps e ..
  then show ?thesis
    by (simp add: err_sg_def b(1) py_pow_def)
qed

lemma not_meets_target_if:
  assumes "err_sg M tau n rho = Returns (Finite v)" "target \<le> v" "M - tau + 1 \<le> rho" "rho \<le> M"
  shows "\<not> meets_target M tau n"
proof (cases "err_base M tau n")
  case (Returns base)
  have all: "\<forall>r \<in> {M - tau + 1 .. M}. \<exists>v. err_sg M tau n r = Returns (Finite v)"
    using err_base_needs_all [OF Returns] by blast
  from err_base_returns [OF all] Returns
  obtain b where b: "base = Finite b"
    "\<forall>r \<in> {M - tau + 1 .. M}. \<exists>w. err_sg M tau n r = Returns (Finite w) \<and> w \<le> b"
    by auto
  moreover have "rho \<in> {M - tau + 1 .. M}" using assms(3,4) by simp
  ultimately obtain w where "err_sg M tau n rho = Returns (Finite w)" "w \<le> b" by blast
  with assms(1) have "v \<le> b" by simp
  with assms(2) show ?thesis
    by (simp add: meets_target_def Returns b(1))
qed (simp_all add: meets_target_def)

lemma not_meets_target_tau8: "8 < M \<Longrightarrow> \<not> meets_target M 8 16"
  using not_meets_target_if [of M 8 16 M "1 / 2 ^ 32"] err_sg_at_M_16_8 [of M]
  by (simp add: target_def)

lemma err_eq: "err M tau n lst =
  (case err_base M tau n of
     Returns base \<Rightarrow> Returns (if meets_target M tau n then lst @ [(M, tau)] else lst)
   | Raises e \<Rightarrow> Raises e | Outside_model \<Rightarrow> Outside_model)"
  by (cases "err_base M tau n") (simp_all add: err_def meets_target_def)

lemma ncr_2_1: "ncr 2 1 = Returns 2"
  using ncr_choose [of 1 2] by simp

lemma rho_range_2_1: "py_range 2 3 1 = [2]"
  by (simp add: py_range_def range_len_def)

lemma err_sg_2_1_neg: "err_sg 2 1 (- 1) 2 = Returns (Finite (- 1))"
proof -
  have c: "float_of_int (- 1) = Returns (- 1)"
    using float_of_int_exact [of "- 1"] by simp
  have "(1::rat) / (- 1) = of_int (- 1) * pow2 0"
    by (simp add: pow2_0)
  then have e: "float_div 1 (- 1) = Returns (Finite (1 / (- 1)))"
    by (rule float_div_exact [rotated]) simp_all
  have "err_sg_try 2 2 (Int_num (- 1)) = Returns (Finite (- 1))"
    using e by (simp add: err_sg_try_def int_truediv_self float_div_num_def c)
  then show ?thesis
    by (simp add: err_sg_def ncr_2_1 py_pow_def)
qed

lemma err_sg_2_1_zero: "err_sg 2 1 0 2 = Raises ZeroDivisionError"
proof -
  have c: "float_of_int 0 = Returns 0"
    using float_of_int_exact [of 0] by simp
  have "err_sg_try 2 2 (Int_num 0) = Raises ZeroDivisionError"
    by (simp add: err_sg_try_def int_truediv_self float_div_num_def c float_div_def)
  then show ?thesis
    by (simp add: err_sg_def ncr_2_1 py_pow_def)
qed

text \<open>
  Claim C1 as stated fails for \<open>n \<le> 0\<close>: with \<open>M = 2\<close>, \<open>tau = 1\<close>, \<open>n = -1\<close> the only \<open>rho\<close> is
  \<open>2\<close>, \<open>err_sg\<close> returns \<open>-1.0\<close> there, and the loop ends with \<open>base = 0.0\<close>, which is not the
  maximum; with \<open>n = 0\<close> the call is left by \<open>ZeroDivisionError\<close>.
\<close>

theorem err_base_not_maximum_counterexample:
  "py_range (2 - 1 + 1) (2 + 1) 1 = [2]
   \<and> err_sg 2 1 (- 1) 2 = Returns (Finite (- 1))
   \<and> err_base 2 1 (- 1) = Returns (Finite 0)
   \<and> err_base 2 1 0 = Raises ZeroDivisionError"
  by (simp add: err_base_def rho_range_2_1 err_sg_2_1_neg err_sg_2_1_zero)

theorem err_base_is_maximum_witness:
  "\<exists>base. err_base 64 8 16 = Returns (Finite base)
     \<and> (\<forall>rho \<in> {64 - 8 + 1 .. 64}. \<exists>v. err_sg 64 8 16 rho = Returns (Finite v) \<and> v \<le> base)
     \<and> (\<exists>rho \<in> {64 - 8 + 1 .. 64}. err_sg 64 8 16 rho = Returns (Finite base))
     \<and> base = Max {v. \<exists>rho \<in> {64 - 8 + 1 .. 64}. err_sg 64 8 16 rho = Returns (Finite v)}
     \<and> err 64 8 16 [] = Returns (if base < target then [] @ [(64, 8)] else [])"
  by (rule err_base_is_maximum) simp_all

section \<open>The search\<close>

lemma meets_target_iff:
  "meets_target M tau n \<longleftrightarrow> (\<exists>b. err_base M tau n = Returns b \<and> float_less b (Finite target))"
  by (cases "err_base M tau n") (simp_all add: meets_target_def)

lemma err_step:
  assumes "err M tau n lst = Returns lst'"
  shows "lst' = lst @ filter (\<lambda>c. meets_target (fst c) (snd c) n) [(M, tau)]"
  using assms by (cases "err_base M tau n") (auto simp: err_def meets_target_def)

lemma tau_loop_result:
  "tau_loop M taus n lst = Returns lst' \<Longrightarrow>
   lst' = lst @ filter (\<lambda>c. meets_target (fst c) (snd c) n) (map (Pair M) taus)"
proof (induction taus arbitrary: lst)
  case Nil
  then show ?case by simp
next
  case (Cons tau taus)
  from Cons.prems obtain l1 where l1: "err M tau n lst = Returns l1"
    "tau_loop M taus n l1 = Returns lst'"
    by (cases "err M tau n lst") auto
  from Cons.IH [OF l1(2)] err_step [OF l1(1)] show ?case by simp
qed

lemma M_loop_result:
  "M_loop Ms taus n lst = Returns lst' \<Longrightarrow>
   lst' = lst @ filter (\<lambda>c. meets_target (fst c) (snd c) n) (List.product Ms taus)"
proof (induction Ms arbitrary: lst)
  case Nil
  then show ?case by simp
next
  case (Cons M Ms)
  from Cons.prems obtain l1 where l1: "tau_loop M taus n lst = Returns l1"
    "M_loop Ms taus n l1 = Returns lst'"
    by (cases "tau_loop M taus n lst") auto
  from Cons.IH [OF l1(2)] tau_loop_result [OF l1(1)] show ?case by simp
qed

lemma err_total:
  assumes "0 < tau" "tau < M" "1 \<le> n"
  shows "\<exists>lst'. err M tau n lst = Returns lst'"
  using err_base_in_range [OF assms] by (auto simp: err_def)

lemma tau_loop_total:
  assumes "\<forall>tau \<in> set taus. 0 < tau \<and> tau < M" "1 \<le> n"
  shows "\<exists>lst'. tau_loop M taus n lst = Returns lst'"
  using assms(1)
proof (induction taus arbitrary: lst)
  case Nil
  show ?case by simp
next
  case (Cons tau taus)
  from Cons.prems have "0 < tau" "tau < M" by simp_all
  from err_total [OF this assms(2)] obtain l1 where "err M tau n lst = Returns l1" by blast
  moreover from Cons.IH [of l1] Cons.prems
  obtain l2 where "tau_loop M taus n l1 = Returns l2" by auto
  ultimately show ?case by simp
qed

lemma M_loop_total:
  assumes "\<forall>M \<in> set Ms. \<forall>tau \<in> set taus. 0 < tau \<and> tau < M" "1 \<le> n"
  shows "\<exists>lst'. M_loop Ms taus n lst = Returns lst'"
  using assms(1)
proof (induction Ms arbitrary: lst)
  case Nil
  show ?case by simp
next
  case (Cons M Ms)
  from Cons.prems have "\<forall>tau \<in> set taus. 0 < tau \<and> tau < M" by simp
  from tau_loop_total [OF this assms(2)]
  obtain l1 where "tau_loop M taus n lst = Returns l1" by blast
  moreover from Cons.IH [of l1] Cons.prems
  obtain l2 where "M_loop Ms taus n l1 = Returns l2" by auto
  ultimately show ?case by simp
qed

lemma search_eq:
  assumes "\<forall>M \<in> set Ms. \<forall>tau \<in> set taus. 0 < tau \<and> tau < M" "1 \<le> n"
  shows "search Ms taus n
         = Returns (filter (\<lambda>c. meets_target (fst c) (snd c) n) (List.product Ms taus))"
proof -
  from M_loop_total [OF assms] obtain lst' where l: "M_loop Ms taus n [] = Returns lst'"
    by blast
  from M_loop_result [OF l] l show ?thesis
    by (simp add: search_def)
qed

text \<open>
  Claim C3.  A call \<open>err M tau n\<close> appends \<open>(M, tau)\<close> to the list exactly when every
  \<open>err_sg M tau n rho\<close> for \<open>rho\<close> in \<open>[M - tau + 1, M]\<close> returns a value below \<open>target\<close>, that
  is (for a non-empty range) when their maximum is below \<open>target\<close>; a call that returns
  and does not append leaves the list as it was; so a list whose entries all meet the
  target keeps that property through every call of \<open>err\<close>, and every entry of the list the
  search returns meets the target.
\<close>

theorem err_appends_iff_below_target:
  "(err M tau n lst = Returns (lst @ [(M, tau)])
      \<longleftrightarrow> (\<forall>rho \<in> {M - tau + 1 .. M}. \<exists>v. err_sg M tau n rho = Returns (Finite v) \<and> v < target))
   \<and> (0 < tau \<and> (\<forall>rho \<in> {M - tau + 1 .. M}. \<exists>v. err_sg M tau n rho = Returns (Finite v)) \<longrightarrow>
        (err M tau n lst = Returns (lst @ [(M, tau)])
           \<longleftrightarrow> Max {v. \<exists>rho \<in> {M - tau + 1 .. M}. err_sg M tau n rho = Returns (Finite v)} < target))
   \<and> (\<forall>lst'. err M tau n lst = Returns lst' \<longrightarrow> lst' = lst @ [(M, tau)] \<or> lst' = lst)
   \<and> (\<forall>lst'. err M tau n lst = Returns lst' \<and> (\<forall>c \<in> set lst. meets_target (fst c) (snd c) n) \<longrightarrow>
        (\<forall>c \<in> set lst'. meets_target (fst c) (snd c) n))
   \<and> (\<forall>Ms taus lst'. search Ms taus n = Returns lst' \<longrightarrow>
        (\<forall>c \<in> set lst'. meets_target (fst c) (snd c) n))"
proof -
  let ?R = "{M - tau + 1 .. M}"
  let ?V = "{v. \<exists>rho \<in> ?R. err_sg M tau n rho = Returns (Finite v)}"
  have 1: "err M tau n lst = Returns (lst @ [(M, tau)])
      \<longleftrightarrow> (\<forall>rho \<in> ?R. \<exists>v. err_sg M tau n rho = Returns (Finite v) \<and> v < target)"
    by (simp only: err_appends_iff_base err_base_below_iff)
  have 2: "err M tau n lst = Returns (lst @ [(M, tau)]) \<longleftrightarrow> Max ?V < target"
    if tau: "0 < tau" and all: "\<forall>rho \<in> ?R. \<exists>v. err_sg M tau n rho = Returns (Finite v)"
  proof -
    have "?V \<subseteq> (\<lambda>rho. case err_sg M tau n rho of Returns (Finite v) \<Rightarrow> v | _ \<Rightarrow> 0) ` ?R"
      by force
    then have fin: "finite ?V" by (rule finite_subset) simp
    have "M \<in> ?R" using tau by simp
    with all have ne: "?V \<noteq> {}" by blast
    have "Max ?V < target \<longleftrightarrow> (\<forall>v \<in> ?V. v < target)"
      using fin ne by (rule Max_less_iff)
    also have "\<dots> \<longleftrightarrow> (\<forall>rho \<in> ?R. \<exists>v. err_sg M tau n rho = Returns (Finite v) \<and> v < target)"
      using all by fastforce
    finally show ?thesis using 1 by simp
  qed
  have 3: "lst' = lst @ [(M, tau)] \<or> lst' = lst" if "err M tau n lst = Returns lst'" for lst'
    using err_step [OF that] by (simp split: if_splits)
  have 4: "\<forall>c \<in> set lst'. meets_target (fst c) (snd c) n"
    if "err M tau n lst = Returns lst'" "\<forall>c \<in> set lst. meets_target (fst c) (snd c) n" for lst'
    using err_step [OF that(1)] that(2) by (auto split: if_splits)
  have 5: "\<forall>c \<in> set lst'. meets_target (fst c) (snd c) n"
    if "search Ms taus n = Returns lst'" for Ms taus lst'
    using M_loop_result [of Ms taus n "[]" lst'] that by (simp add: search_def)
  from 1 2 3 4 5 show ?thesis by blast
qed

theorem err_appends_iff_below_target_witness:
  "err 64 8 16 [] = Returns []
   \<and> \<not> (\<forall>rho \<in> {64 - 8 + 1 .. 64}. \<exists>v. err_sg 64 8 16 rho = Returns (Finite v) \<and> v < target)
   \<and> \<not> meets_target 64 8 16"
proof -
  have nm: "\<not> meets_target 64 8 16"
    by (rule not_meets_target_tau8) simp
  from err_total [of 8 64 16 "[]"] obtain lst' where l: "err 64 8 16 [] = Returns lst'"
    by auto
  from err_step [OF l] nm have e: "err 64 8 16 [] = Returns []"
    using l by simp
  from err_appends_iff_below_target [of 64 8 16 "[]"] e
  have "\<not> (\<forall>rho \<in> {64 - 8 + 1 .. 64}. \<exists>v. err_sg 64 8 16 rho = Returns (Finite v) \<and> v < target)"
    by simp
  with e nm show ?thesis by simp
qed

section \<open>The overflow handler\<close>









text \<open>
  The model leaves out exactly the calls of \<open>err_sg\<close> with a negative exponent, a base that
  is a non-zero float, and a power that is not a binary64 number.
\<close>

lemma err_sg_try_inside: "err_sg_try a b c \<noteq> Outside_model"
  by (cases c)
    (simp_all add: err_sg_try_def int_truediv_def float_div_num_def float_of_int_def float_div_def)

lemma py_pow_outside_iff:
  "py_pow n k = Outside_model
   \<longleftrightarrow> k < 0 \<and> \<not> double_overflow (of_int n) \<and> \<not> double_overflow (of_int k)
       \<and> round_double (of_int n) \<noteq> 0
       \<and> round_double ((1 / round_double (of_int n)) ^ nat (- \<lfloor>round_double (of_int k)\<rfloor>))
           \<noteq> (1 / round_double (of_int n)) ^ nat (- \<lfloor>round_double (of_int k)\<rfloor>)"
  by (auto simp: py_pow_def float_of_int_def Let_def)

lemma err_sg_outside_iff:
  "err_sg M tau n rho = Outside_model \<longleftrightarrow> py_pow n (rho - M + tau) = Outside_model"
proof -
  from ncr_total [of rho "M - tau"] obtain a where a: "ncr rho (M - tau) = Returns a" by blast
  from ncr_total [of M "M - tau"] obtain b where b: "ncr M (M - tau) = Returns b" by blast
  have "except_overflow r \<noteq> Outside_model" if "r \<noteq> Outside_model" for r
    using that by (cases r rule: except_overflow.cases) simp_all
  from this [OF err_sg_try_inside] show ?thesis
    by (cases "py_pow n (rho - M + tau)") (simp_all add: err_sg_def a b)
qed


section \<open>Deciding the comparison with the target for \<open>n = 16\<close>\<close>

lemma prod_falling_upto: "prod_list (map (\<lambda>i. n - int i) [0 ..< m]) = prod_list [n - int m + 1 .. n]"
proof (induction m)
  case 0
  show ?case by simp
next
  case (Suc m)
  have "[n - int (Suc m) + 1 .. n] = (n - int m) # [n - int m + 1 .. n]"
    using upto_rec1 [of "n - int m" n] by simp
  with Suc show ?case by (simp add: mult.commute)
qed

lemma prod_rising_upto: "prod_list (map (\<lambda>i. 1 + int i) [0 ..< m]) = prod_list [1 .. int m]"
proof (induction m)
  case 0
  show ?case by simp
next
  case (Suc m)
  have "[1 .. int (Suc m)] = [1 .. int m] @ [1 + int m]"
    using upto_rec2 [of 1 "1 + int m"] by simp
  with Suc show ?case by simp
qed

lemma ncr_numer_upto: "0 \<le> ncr_r n r \<Longrightarrow> ncr_numer n r = prod_list [n - ncr_r n r + 1 .. n]"
  by (simp add: ncr_numer_def reduce_mul_prod_list py_range_down prod_falling_upto)

lemma ncr_denom_upto: "0 \<le> ncr_r n r \<Longrightarrow> ncr_denom n r = prod_list [1 .. ncr_r n r]"
  by (simp add: ncr_denom_def reduce_mul_prod_list py_range_up prod_rising_upto)

lemma ncr_upto:
  assumes "ncr_r n r = k" "0 \<le> k" "prod_list [1 .. k] \<noteq> 0"
  shows "ncr n r = Returns (prod_list [n - k + 1 .. n] div prod_list [1 .. k])"
  using assms by (simp add: ncr_def py_floordiv_def ncr_numer_upto ncr_denom_upto)

lemma upto_1_numeral: "[1 .. numeral k] = 1 # [2 .. numeral k]"
  using upto_rec1 [of 1 "numeral k"] by simp

lemma power_16: "(16::int) ^ k = 2 ^ (4 * k)"
proof -
  have "(16::int) = 2 ^ 4" by simp
  then show ?thesis by (simp only: power_mult)
qed

text \<open>
  The value of \<open>err_sg\<close> for \<open>n = 16\<close> and \<open>rho\<close> in range: the power of 16 is a float as it
  stands, and dividing by it only moves the exponent.
\<close>

lemma err_sg_16_value:
  assumes "ncr rho (M - tau) = Returns a" "ncr M (M - tau) = Returns b" "1 \<le> a" "a \<le> b"
    and "0 \<le> k" "4 * k \<le> 971" "rho - M + tau = k"
  shows "err_sg M tau 16 rho
         = Returns (Finite (round_double (round_double (of_int a / of_int b) / pow2 (4 * k))))"
proof -
  define d where "d = round_double (of_int a / of_int b)"
  have q: "0 \<le> (of_int a / of_int b :: rat)" "(of_int a / of_int b :: rat) \<le> 1"
    using assms(3,4) by simp_all
  have du: "0 \<le> d" "d \<le> 1"
    unfolding d_def using q by (rule round_double_unit)+
  have "\<not> double_overflow (of_int a / of_int b)"
    using q by (intro no_overflow_unit) simp
  then have d: "int_truediv a b = Returns d"
    using assms(3,4) by (simp add: int_truediv_def d_def)
  have p: "py_pow 16 (rho - M + tau) = Returns (Int_num (2 ^ nat (4 * k)))"
    using assms(5) by (simp add: py_pow_def assms(7) power_16 nat_mult_distrib)
  have c: "float_of_int (2 ^ nat (4 * k)) = Returns (pow2 (4 * k))"
    using assms(5,6) by (intro float_of_int_pow2) simp_all
  have "1 \<le> pow2 (4 * k)"
    using pow2_mono [of 0 "4 * k"] assms(5) by (simp add: pow2_0)
  then have r: "0 \<le> d / pow2 (4 * k)" "d / pow2 (4 * k) \<le> 1"
    using du by (simp_all add: field_simps)
  then have "\<not> double_overflow (d / pow2 (4 * k))"
    by (intro no_overflow_unit) simp
  then have e: "float_div d (pow2 (4 * k)) = Returns (Finite (round_double (d / pow2 (4 * k))))"
    using pow2_pos [of "4 * k"] by (simp add: float_div_def)
  have "err_sg_try a b (Int_num (2 ^ nat (4 * k))) = Returns (Finite (round_double (d / pow2 (4 * k))))"
    unfolding err_sg_try_def d bind.simps float_div_num_def number.case c e ..
  then show ?thesis
    by (simp add: err_sg_def assms(1,2) p d_def)
qed

text \<open>The largest float below \<open>target\<close> is \<open>(2 ^ 53 - 1) * 2 ^ -113\<close>.\<close>

lemma err_sg_16_below:
  assumes "ncr rho (M - tau) = Returns a" "ncr M (M - tau) = Returns b" "1 \<le> a" "a \<le> b"
    and "0 \<le> k" "4 * k \<le> 113" "rho - M + tau = k"
    and "a * 2 ^ nat (113 - 4 * k) \<le> b * (2 ^ 53 - 1)"
  shows "\<exists>v. err_sg M tau 16 rho = Returns (Finite v) \<and> v < target"
proof -
  define d where "d = round_double (of_int a / of_int b)"
  let ?m = "2 ^ 53 - 1 :: int"
  have m: "\<bar>?m\<bar> < 2 ^ 53" by simp
  have b: "0 < (of_int b :: rat)" using assms(3,4) by simp
  have "(of_int (a * 2 ^ nat (113 - 4 * k)) :: rat) \<le> of_int (b * ?m)"
    using assms(8) by (simp only: of_int_le_iff)
  then have "(of_int a :: rat) * pow2 (113 - 4 * k) \<le> of_int b * of_int ?m"
    using assms(6) by (simp add: pow2_nat)
  then have "of_int a / of_int b \<le> (of_int ?m :: rat) / pow2 (113 - 4 * k)"
    using b pow2_pos [of "113 - 4 * k"] by (simp add: field_simps)
  also have "\<dots> = of_int ?m * pow2 (4 * k - 113)"
    using pow2_diff [of 0 "113 - 4 * k"] by (simp add: pow2_0)
  finally have "d \<le> of_int ?m * pow2 (4 * k - 113)"
    unfolding d_def using m assms(5) by (intro round_double_le_exact) simp_all
  then have "d / pow2 (4 * k) \<le> of_int ?m * pow2 (4 * k - 113) / pow2 (4 * k)"
    using pow2_pos [of "4 * k"] by (simp add: divide_right_mono)
  also have "\<dots> = of_int ?m * pow2 (- 113)"
    using pow2_diff [of "4 * k - 113" "4 * k"] by simp
  finally have "round_double (d / pow2 (4 * k)) \<le> of_int ?m * pow2 (- 113)"
    using m by (intro round_double_le_exact) simp_all
  also have "\<dots> < target"
    by (simp add: pow2_def target_def)
  finally have "round_double (d / pow2 (4 * k)) < target" .
  moreover have "4 * k \<le> 971" using assms(6) by simp
  note err_sg_16_value [OF assms(1-5) this assms(7)]
  ultimately show ?thesis by (simp add: d_def)
qed

lemma err_sg_16_above:
  assumes "ncr rho (M - tau) = Returns a" "ncr M (M - tau) = Returns b" "1 \<le> a" "a \<le> b"
    and "0 \<le> k" "4 * k \<le> 971" "rho - M + tau = k"
    and "b * 2 ^ nat (4 * k) \<le> a * 2 ^ 60"
  shows "\<exists>v. err_sg M tau 16 rho = Returns (Finite v) \<and> target \<le> v"
proof -
  define d where "d = round_double (of_int a / of_int b)"
  have b: "0 < (of_int b :: rat)" using assms(3,4) by simp
  have "(of_int (b * 2 ^ nat (4 * k)) :: rat) \<le> of_int (a * 2 ^ 60)"
    using assms(8) by (simp only: of_int_le_iff)
  then have "(of_int b :: rat) * pow2 (4 * k) \<le> of_int a * pow2 60"
    using assms(5) by (simp add: pow2_nat)
  then have "pow2 (4 * k) / pow2 60 \<le> (of_int a / of_int b :: rat)"
    using b pow2_pos [of 60] by (simp add: field_simps)
  then have "pow2 (4 * k - 60) \<le> of_int a / of_int b"
    by (simp add: pow2_diff)
  then have "pow2 (4 * k - 60) \<le> d"
    unfolding d_def using assms(5) by (intro round_double_ge_pow2) simp_all
  then have "pow2 (4 * k - 60) / pow2 (4 * k) \<le> d / pow2 (4 * k)"
    using pow2_pos [of "4 * k"] by (simp add: divide_right_mono)
  moreover have "pow2 (4 * k - 60) / pow2 (4 * k) = pow2 (- 60)"
    using pow2_diff [of "4 * k - 60" "4 * k"] by simp
  ultimately have "pow2 (- 60) \<le> round_double (d / pow2 (4 * k))"
    by (intro round_double_ge_pow2) simp_all
  then have "target \<le> round_double (d / pow2 (4 * k))"
    by (simp add: pow2_def target_def)
  with err_sg_16_value [OF assms(1-7)] show ?thesis by (simp add: d_def)
qed

lemma prod_list_upto_pos: "0 < prod_list [1 .. k]"
proof (induction "nat k" arbitrary: k)
  case 0
  then show ?case by simp
next
  case (Suc m)
  then have k: "1 \<le> k" "m = nat (k - 1)" by simp_all
  have "[1 .. k] = [1 .. k - 1] @ [k]"
    using upto_rec2 [of 1 k] k(1) by simp
  with Suc.hyps(1) [OF k(2)] k(1) show ?case by simp
qed

text \<open>The binomials of an in-range call, as the quotients of products \<open>ncr\<close> computes.\<close>

lemma ncr_in_range_upto:
  assumes "0 < tau" "tau < M" "M - tau + 1 \<le> rho" "rho \<le> M"
  shows "ncr rho (M - tau)
           = Returns (prod_list [rho - min (M - tau) (rho - (M - tau)) + 1 .. rho]
                      div prod_list [1 .. min (M - tau) (rho - (M - tau))])"
    and "ncr M (M - tau)
           = Returns (prod_list [M - min (M - tau) tau + 1 .. M] div prod_list [1 .. min (M - tau) tau])"
proof -
  have nz: "prod_list [1 .. k] \<noteq> 0" for k :: int
    using prod_list_upto_pos [of k] by simp
  show "ncr rho (M - tau)
           = Returns (prod_list [rho - min (M - tau) (rho - (M - tau)) + 1 .. rho]
                      div prod_list [1 .. min (M - tau) (rho - (M - tau))])"
    using assms by (intro ncr_upto nz) (simp_all add: ncr_r_def)
  show "ncr M (M - tau)
           = Returns (prod_list [M - min (M - tau) tau + 1 .. M] div prod_list [1 .. min (M - tau) tau])"
    using assms ncr_upto [of M "M - tau" "min (M - tau) tau", OF _ _ nz]
    by (simp add: ncr_r_def)
qed

lemma err_sg_16_below_check:
  assumes "0 < tau" "tau < M" "M - tau + 1 \<le> rho" "rho \<le> M"
    and "4 * (rho - M + tau) \<le> 113"
    and "(prod_list [rho - min (M - tau) (rho - (M - tau)) + 1 .. rho]
            div prod_list [1 .. min (M - tau) (rho - (M - tau))])
           * 2 ^ nat (113 - 4 * (rho - M + tau))
         \<le> (prod_list [M - min (M - tau) tau + 1 .. M] div prod_list [1 .. min (M - tau) tau])
           * (2 ^ 53 - 1)"
  shows "\<exists>v. err_sg M tau 16 rho = Returns (Finite v) \<and> v < target"
proof -
  note u = ncr_in_range_upto [OF assms(1-4)]
  from ncr_in_range [OF assms(1-4)] u
  have ab: "1 \<le> prod_list [rho - min (M - tau) (rho - (M - tau)) + 1 .. rho]
                   div prod_list [1 .. min (M - tau) (rho - (M - tau))]"
    "prod_list [rho - min (M - tau) (rho - (M - tau)) + 1 .. rho]
       div prod_list [1 .. min (M - tau) (rho - (M - tau))]
     \<le> prod_list [M - min (M - tau) tau + 1 .. M] div prod_list [1 .. min (M - tau) tau]"
    by auto
  have k: "0 \<le> rho - M + tau" using assms(3) by simp
  show ?thesis
    by (rule err_sg_16_below [OF u ab k assms(5) refl assms(6)])
qed

lemma err_sg_16_above_check:
  assumes "0 < tau" "tau < M" "M - tau + 1 \<le> rho" "rho \<le> M"
    and "4 * (rho - M + tau) \<le> 971"
    and "(prod_list [M - min (M - tau) tau + 1 .. M] div prod_list [1 .. min (M - tau) tau])
           * 2 ^ nat (4 * (rho - M + tau))
         \<le> (prod_list [rho - min (M - tau) (rho - (M - tau)) + 1 .. rho]
            div prod_list [1 .. min (M - tau) (rho - (M - tau))]) * 2 ^ 60"
  shows "\<exists>v. err_sg M tau 16 rho = Returns (Finite v) \<and> target \<le> v"
proof -
  note u = ncr_in_range_upto [OF assms(1-4)]
  from ncr_in_range [OF assms(1-4)] u
  have ab: "1 \<le> prod_list [rho - min (M - tau) (rho - (M - tau)) + 1 .. rho]
                   div prod_list [1 .. min (M - tau) (rho - (M - tau))]"
    "prod_list [rho - min (M - tau) (rho - (M - tau)) + 1 .. rho]
       div prod_list [1 .. min (M - tau) (rho - (M - tau))]
     \<le> prod_list [M - min (M - tau) tau + 1 .. M] div prod_list [1 .. min (M - tau) tau]"
    by auto
  have k: "0 \<le> rho - M + tau" using assms(3) by simp
  show ?thesis
    by (rule err_sg_16_above [OF u ab k assms(5) refl assms(6)])
qed

lemma meets_target_144_16: "meets_target 144 16 16"
proof -
  have "\<forall>rho \<in> set [144 - 16 + 1 .. 144]. \<exists>v. err_sg 144 16 16 rho = Returns (Finite v) \<and> v < target"
    by (simp, intro conjI; rule err_sg_16_below_check; simp add: upto_1_numeral)
  then show ?thesis
    by (simp only: meets_target_iff err_base_below_iff set_upto)
qed

lemma not_meets_target_tau16:
  "\<not> meets_target 64 16 16" "\<not> meets_target 72 16 16" "\<not> meets_target 80 16 16"
  "\<not> meets_target 88 16 16" "\<not> meets_target 96 16 16" "\<not> meets_target 104 16 16"
  "\<not> meets_target 112 16 16" "\<not> meets_target 120 16 16" "\<not> meets_target 128 16 16"
  "\<not> meets_target 136 16 16"
proof -
  have r: "\<not> meets_target M 16 16"
    if "\<exists>v. err_sg M 16 16 rho = Returns (Finite v) \<and> target \<le> v" "M - 16 + 1 \<le> rho" "rho \<le> M"
    for M rho
    using that not_meets_target_if [of M 16 16 rho] by blast
  show "\<not> meets_target 64 16 16"
    by (rule r [of 64 51], rule err_sg_16_above_check) (simp_all add: upto_1_numeral)
  show "\<not> meets_target 72 16 16"
    by (rule r [of 72 59], rule err_sg_16_above_check) (simp_all add: upto_1_numeral)
  show "\<not> meets_target 80 16 16"
    by (rule r [of 80 68], rule err_sg_16_above_check) (simp_all add: upto_1_numeral)
  show "\<not> meets_target 88 16 16"
    by (rule r [of 88 76], rule err_sg_16_above_check) (simp_all add: upto_1_numeral)
  show "\<not> meets_target 96 16 16"
    by (rule r [of 96 85], rule err_sg_16_above_check) (simp_all add: upto_1_numeral)
  show "\<not> meets_target 104 16 16"
    by (rule r [of 104 93], rule err_sg_16_above_check) (simp_all add: upto_1_numeral)
  show "\<not> meets_target 112 16 16"
    by (rule r [of 112 102], rule err_sg_16_above_check) (simp_all add: upto_1_numeral)
  show "\<not> meets_target 120 16 16"
    by (rule r [of 120 110], rule err_sg_16_above_check) (simp_all add: upto_1_numeral)
  show "\<not> meets_target 128 16 16"
    by (rule r [of 128 119], rule err_sg_16_above_check) (simp_all add: upto_1_numeral)
  show "\<not> meets_target 136 16 16"
    by (rule r [of 136 127], rule err_sg_16_above_check) (simp_all add: upto_1_numeral)
qed

lemma set_py_range_pos:
  assumes "0 < s"
  shows "set (py_range a b s) = {x. a \<le> x \<and> x < b \<and> s dvd (x - a)}"
proof (cases "a < b")
  case False
  then show ?thesis using assms by (auto simp: py_range_def range_len_def)
next
  case True
  define len where "len = (b - a - 1) div s + 1"
  have len: "0 < len"
    using True assms by (simp add: len_def pos_imp_zdiv_nonneg_iff)
  have set: "set (py_range a b s) = (\<lambda>i. a + s * int i) ` {0 ..< nat len}"
    using True assms by (simp add: py_range_def range_len_def len_def)
  show ?thesis
  proof (intro set_eqI iffI)
    fix x assume "x \<in> set (py_range a b s)"
    then obtain i where i: "x = a + s * int i" and "i \<in> {0 ..< nat len}"
      unfolding set by (rule imageE)
    then have "int i < len" using len by simp
    then have "int i \<le> (b - a - 1) div s" by (simp add: len_def)
    then have "s * int i \<le> s * ((b - a - 1) div s)"
      using assms by (simp add: mult_left_mono)
    also have "\<dots> \<le> b - a - 1"
      using mult_div_mod_eq [of s "b - a - 1"] pos_mod_sign [OF assms, of "b - a - 1"]
      by linarith
    finally show "x \<in> {x. a \<le> x \<and> x < b \<and> s dvd (x - a)}"
      using i assms by simp
  next
    fix x assume "x \<in> {x. a \<le> x \<and> x < b \<and> s dvd (x - a)}"
    then have x: "a \<le> x" "x < b" "s dvd (x - a)" by simp_all
    then obtain j where j: "x - a = s * j" by (auto elim: dvdE)
    have "0 \<le> s * j" using x(1) j by simp
    then have j0: "0 \<le> j"
      using assms by (simp add: zero_le_mult_iff)
    have "s * j \<le> b - a - 1" using x(2) j by simp
    then have "(s * j) div s \<le> (b - a - 1) div s"
      using assms by (rule zdiv_mono1)
    then have "j \<le> (b - a - 1) div s"
      using assms by simp
    then have "nat j \<in> {0 ..< nat len}"
      using j0 by (simp add: len_def)
    moreover have "x = a + s * int (nat j)"
      using j j0 by simp
    ultimately show "x \<in> set (py_range a b s)"
      unfolding set by (rule rev_image_eqI)
  qed
qed

lemma M_range: "set (py_range 64 512 8) = {M. 64 \<le> M \<and> M < 512 \<and> 8 dvd (M - 64)}"
  by (rule set_py_range_pos) simp

lemma tau_range: "py_range 8 50 8 = [8, 16, 24, 32, 40, 48]"
  by code_simp

section \<open>The output of the program\<close>

lemma select_best_least: "c \<in> set lst \<Longrightarrow> tau_then_M_le (select_best lst) c"
  using select_scan [of sentinel lst] by (simp add: select_best_def)

lemma select_best_member:
  assumes "lst \<noteq> []" "\<forall>c \<in> set lst. snd c < 10000"
  shows "select_best lst \<in> set lst"
proof (rule ccontr)
  assume "select_best lst \<notin> set lst"
  with select_scan [of sentinel lst] have s: "select_best lst = sentinel"
    by (auto simp: select_best_def)
  from assms(1) obtain c where c: "c \<in> set lst" by (cases lst) auto
  from select_best_least [OF c] s have "tau_then_M_le sentinel c" by simp
  moreover from assms(2) c have "snd c < 10000" by blast
  ultimately show False
    by (simp add: tau_then_M_le_def sentinel_def)
qed

lemma tau_then_M_le_antisym: "tau_then_M_le p q \<Longrightarrow> tau_then_M_le q p \<Longrightarrow> p = q"
  by (auto simp: tau_then_M_le_def prod_eq_iff)

lemma production_ranges:
  "\<forall>M \<in> set (py_range 64 512 8). \<forall>tau \<in> set (py_range 8 50 8). 0 < tau \<and> tau < M"
  by (simp add: M_range tau_range)

lemma production_search:
  "search (py_range 64 512 8) (py_range 8 50 8) 16
   = Returns (filter (\<lambda>c. meets_target (fst c) (snd c) 16)
                (List.product (py_range 64 512 8) (py_range 8 50 8)))"
  by (rule search_eq [OF production_ranges]) simp

lemma production_least:
  assumes "M \<in> set (py_range 64 512 8)" "tau \<in> set (py_range 8 50 8)" "meets_target M tau 16"
  shows "tau_then_M_le (144, 16) (M, tau)"
proof -
  have M: "64 \<le> M" "8 dvd (M - 64)" using assms(1) by (simp_all add: M_range)
  from M(1) have "tau \<noteq> 8"
    using assms(3) not_meets_target_tau8 [of M] by auto
  then have tau: "16 \<le> tau" using assms(2) by (auto simp: tau_range)
  have "144 \<le> M" if "tau = 16"
  proof -
    have "M \<notin> {64, 72, 80, 88, 96, 104, 112, 120, 128, 136}"
      using assms(3) that not_meets_target_tau16 by auto
    then show ?thesis using M by simp presburger
  qed
  with tau show ?thesis
    by (auto simp: tau_then_M_le_def)
qed

lemma production_output: "kkw_main = Returns (144, 16)"
proof -
  let ?L = "filter (\<lambda>c. meets_target (fst c) (snd c) 16)
              (List.product (py_range 64 512 8) (py_range 8 50 8))"
  have mem: "(144, 16) \<in> set ?L"
    using meets_target_144_16 by (simp add: M_range tau_range)
  have least: "tau_then_M_le (144, 16) c" if "c \<in> set ?L" for c
    using that production_least [of "fst c" "snd c"] by auto
  have "\<forall>c \<in> set ?L. snd c < 10000"
    by (auto simp: tau_range)
  moreover have "?L \<noteq> []" using mem by (metis empty_iff empty_set)
  ultimately have "select_best ?L \<in> set ?L"
    by (intro select_best_member)
  then have "tau_then_M_le (144, 16) (select_best ?L)" by (rule least)
  moreover have "tau_then_M_le (select_best ?L) (144, 16)"
    using mem by (rule select_best_least)
  ultimately have "select_best ?L = (144, 16)"
    by (intro tau_then_M_le_antisym)
  then show ?thesis
    by (simp add: kkw_main_def run_def production_search)
qed

text \<open>
  Claim C7.  With \<open>n = 16\<close>, the target \<open>2 ^ -60\<close>, \<open>M\<close> over \<open>range(64, 512, 8)\<close> and \<open>tau\<close>
  over \<open>range(8, 50, 8)\<close> the program runs to its end, no call raising, and prints a pair
  that is not the sentinel and whose \<open>tau\<close> is below \<open>10000\<close>: the pair \<open>(144, 16)\<close>, one of
  the searched pairs whose worst-case error is below the target.
\<close>

theorem kkw_main_prints_candidate:
  "kkw_main = Returns (144, 16)
   \<and> (\<exists>p. kkw_main = Returns p \<and> p \<noteq> sentinel \<and> snd p < 10000
          \<and> fst p \<in> set (py_range 64 512 8) \<and> snd p \<in> set (py_range 8 50 8)
          \<and> meets_target (fst p) (snd p) 16)"
proof -
  have "kkw_main = Returns (144, 16) \<and> (144, 16) \<noteq> sentinel \<and> snd (144 :: int, 16 :: int) < 10000
        \<and> fst (144 :: int, 16 :: int) \<in> set (py_range 64 512 8)
        \<and> snd (144 :: int, 16 :: int) \<in> set (py_range 8 50 8)
        \<and> meets_target (fst (144 :: int, 16 :: int)) (snd (144 :: int, 16 :: int)) 16"
    using production_output meets_target_144_16
    by (simp add: sentinel_def M_range tau_range)
  then show ?thesis
    using production_output by blast
qed

text \<open>
  Claim C8.  The selector leaves the sentinel in place on an empty list, so a search that
  ends with an empty candidate list makes the program print \<open>(10000, 10000)\<close>.
\<close>

theorem empty_search_prints_sentinel:
  "select_best [] = (10000, 10000)
   \<and> (search Ms taus n = Returns [] \<longrightarrow> run Ms taus n = Returns (10000, 10000))"
  by (simp add: run_def select_best_def sentinel_def)

theorem empty_search_prints_sentinel_witness:
  "py_range 64 72 8 = [64] \<and> py_range 8 16 8 = [8]
   \<and> search (py_range 64 72 8) (py_range 8 16 8) 16 = Returns []
   \<and> run (py_range 64 72 8) (py_range 8 16 8) 16 = Returns (10000, 10000)"
proof -
  have r: "py_range 64 72 8 = [64]" "py_range 8 16 8 = [8]"
    by code_simp+
  have "search [64] [8] 16
        = Returns (filter (\<lambda>c. meets_target (fst c) (snd c) 16) (List.product [64] [8]))"
    by (rule search_eq) simp_all
  then have s: "search [64] [8] 16 = Returns []"
    using not_meets_target_tau8 [of 64] by simp
  with empty_search_prints_sentinel [of "[64]" "[8]" 16]
  have "run [64] [8] 16 = Returns (10000, 10000)" by simp
  with r s show ?thesis by simp
qed

section \<open>The log parser\<close>

lemma circuit_names_length: "length circuit_names = 25"
  by (simp add: circuit_names_def)

lemma circuit_names_distinct: "distinct circuit_names"
  by (simp add: circuit_names_def)

lemma circuit_names_neq:
  "i < length circuit_names \<Longrightarrow> j < length circuit_names \<Longrightarrow> i \<noteq> j \<Longrightarrow>
   circuit_names ! i \<noteq> circuit_names ! j"
  using circuit_names_distinct by (simp add: nth_eq_iff_index_eq)

text \<open>What one step of the loop does to the state, by the kind of its line.\<close>

lemma group_cases: "(\<exists>s. group m = Returns s) \<or> group m = Raises AttributeError"
  by (cases m) (simp_all add: group_def)

lemma float_of_text_cases: "(\<exists>t. float_of_text s = Returns t) \<or> float_of_text s = Raises ValueError"
  by (simp add: float_of_text_def Let_def)

lemma step_size:
  assumes "kind_of line = Size_line" "step i line st = Returns st'"
  shows "i < length circuit_names
         \<and> (\<exists>n. st' = \<lparr>parsed_data = AList.update (circuit_names ! i) \<lparr>size = n, time_ms = None\<rparr>
                                             (parsed_data st),
                         circuit_name = Some (circuit_names ! i)\<rparr>)"
proof -
  have s: "startswith line ''The size of the serialized object''"
    using assms(1) by (simp add: kind_of_def split: if_splits)
  from group_cases [of "re_search_run is_digit line"] assms(2) s
  obtain d where d: "group (re_search_run is_digit line) = Returns d"
    by (auto simp: step_def)
  show ?thesis
    using assms(2) s d by (auto simp: step_def list_index_def split: if_splits)
qed

lemma step_elapsed:
  assumes "kind_of line = Elapsed_line" "step i line st = Returns st'"
  shows "\<exists>name e t. circuit_name st = Some name \<and> map_of (parsed_data st) name = Some e
           \<and> st' = st\<lparr>parsed_data := AList.update name (e\<lparr>time_ms := Some t\<rparr>) (parsed_data st)\<rparr>"
proof -
  have s: "\<not> startswith line ''The size of the serialized object''" "startswith line ''Elapsed''"
    using assms(1) by (simp_all add: kind_of_def split: if_splits)
  from group_cases [of "re_search_run is_digit_or_dot line"] assms(2) s
  obtain x where x: "group (re_search_run is_digit_or_dot line) = Returns x"
    by (auto simp: step_def)
  from float_of_text_cases [of x] assms(2) s x
  obtain t where t: "float_of_text x = Returns t"
    by (auto simp: step_def)
  show ?thesis
    using assms(2) s x t by (auto simp: step_def split: option.splits)
qed

lemma step_other:
  assumes "kind_of line = Other_line"
  shows "step i line st = Returns st"
  using assms by (simp add: kind_of_def step_def split: if_splits)

lemma step_not_outside: "step i line st \<noteq> Outside_model"
proof -
  have "bind (group m) f \<noteq> Outside_model" if "\<And>x. f x \<noteq> Outside_model"
    for m and f :: "string \<Rightarrow> pstate outcome"
    using that group_cases [of m] by auto
  moreover have "bind (float_of_text s) f \<noteq> Outside_model" if "\<And>x. f x \<noteq> Outside_model"
    for s and f :: "float_val \<Rightarrow> pstate outcome"
    using that float_of_text_cases [of s] by auto
  moreover have "bind (list_index circuit_names i) f \<noteq> Outside_model"
    if "\<And>x. f x \<noteq> Outside_model" for f :: "string \<Rightarrow> pstate outcome"
    using that by (simp add: list_index_def)
  ultimately show ?thesis
    unfolding step_def by (auto split: option.splits)
qed

lemma parse_loop_not_outside: "parse_loop i lines st \<noteq> Outside_model"
proof (induction lines arbitrary: i st)
  case Nil
  show ?case by simp
next
  case (Cons line lines)
  then show ?case
    using step_not_outside [of i line st] by (cases "step i line st") simp_all
qed

lemma write_rows_not_outside: "write_rows ps \<noteq> Outside_model"
proof (induction ps)
  case Nil
  show ?case by simp
next
  case (Cons p ps)
  then show ?case
    by (cases p; cases "write_rows ps") (simp_all split: option.splits)
qed

lemma parse_result_not_outside: "parse_result lines \<noteq> Outside_model"
  using parse_loop_not_outside [of 0 lines "\<lparr>parsed_data = [], circuit_name = None\<rparr>"]
    write_rows_not_outside
  by (cases "parse_loop 0 lines \<lparr>parsed_data = [], circuit_name = None\<rparr>")
     (simp_all add: parse_result_def)

lemma write_rows_needs_time:
  assumes "write_rows ps = Returns rows" "(name, e) \<in> set ps"
  shows "time_ms e \<noteq> None"
  using assms
proof (induction ps arbitrary: rows)
  case Nil
  then show ?case by simp
next
  case (Cons p ps)
  obtain nm e' where p: "p = (nm, e')" by (cases p)
  from Cons.prems(1) p obtain t rest where t: "time_ms e' = Some t" "write_rows ps = Returns rest"
    by (cases "write_rows ps") (auto split: option.splits)
  show ?case
  proof (cases "(name, e) = p")
    case True
    with p t(1) show ?thesis by simp
  next
    case False
    with Cons.prems(2) have "(name, e) \<in> set ps" by simp
    from Cons.IH [OF t(2) this] show ?thesis .
  qed
qed

lemma kind_cases:
  obtains "kind_of line = Size_line" | "kind_of line = Elapsed_line" | "kind_of line = Other_line"
  by (cases "kind_of line") auto

lemma parse_loop_size_index:
  assumes "parse_loop i lines st = Returns st'" "k < length lines" "kind_of (lines ! k) = Size_line"
  shows "i + k < length circuit_names"
  using assms
proof (induction lines arbitrary: i st k)
  case Nil
  then show ?case by simp
next
  case (Cons line lines)
  from Cons.prems(1) obtain st1 where st1: "step i line st = Returns st1"
    "parse_loop (Suc i) lines st1 = Returns st'"
    by (cases "step i line st") auto
  show ?case
  proof (cases k)
    case 0
    with Cons.prems(3) have "kind_of line = Size_line" by simp
    from step_size [OF this st1(1)] 0 show ?thesis by simp
  next
    case (Suc k')
    with Cons.prems(2,3) have "k' < length lines" "kind_of (lines ! k') = Size_line"
      by simp_all
    from Cons.IH [OF st1(2) this] Suc show ?thesis by simp
  qed
qed

text \<open>
  An entry without \<open>'time_ms'\<close> that is no longer the current one stays so: later size lines
  take later names, and an elapsed line writes to the current name.
\<close>

lemma stale_entry_stays:
  assumes "parse_loop i lines st = Returns st'"
    and "map_of (parsed_data st) (circuit_names ! j) = Some e" "time_ms e = None"
    and "circuit_name st = Some (circuit_names ! jc)" "j < jc" "jc < i" "jc < length circuit_names"
  shows "\<exists>e'. map_of (parsed_data st') (circuit_names ! j) = Some e' \<and> time_ms e' = None"
  using assms
proof (induction lines arbitrary: i st jc e)
  case Nil
  then show ?case by simp
next
  case (Cons line lines)
  from Cons.prems(1) obtain st1 where st1: "step i line st = Returns st1"
    "parse_loop (Suc i) lines st1 = Returns st'"
    by (cases "step i line st") auto
  have j: "j < length circuit_names" using Cons.prems(5,7) by simp
  show ?case
  proof (cases line rule: kind_cases)
    case 1
    from step_size [OF 1 st1(1)] obtain n where i: "i < length circuit_names"
      and s: "st1 = \<lparr>parsed_data = AList.update (circuit_names ! i) \<lparr>size = n, time_ms = None\<rparr>
                                       (parsed_data st),
                      circuit_name = Some (circuit_names ! i)\<rparr>"
      by blast
    have "circuit_names ! i \<noteq> circuit_names ! j"
      using Cons.prems(5,6) by (intro circuit_names_neq i j) simp
    then have "map_of (parsed_data st1) (circuit_names ! j) = Some e"
      using Cons.prems(2) by (simp add: s update_conv')
    moreover have "circuit_name st1 = Some (circuit_names ! i)" by (simp add: s)
    moreover have "j < i" using Cons.prems(5,6) by simp
    ultimately show ?thesis
      using Cons.IH [OF st1(2) _ Cons.prems(3), of i] i by simp
  next
    case 2
    from step_elapsed [OF 2 st1(1)] Cons.prems(4)
    obtain e0 t where s: "st1 = st\<lparr>parsed_data := AList.update (circuit_names ! jc)
                                       (e0\<lparr>time_ms := Some t\<rparr>) (parsed_data st)\<rparr>"
      by auto
    have "circuit_names ! jc \<noteq> circuit_names ! j"
      using Cons.prems(5) by (intro circuit_names_neq Cons.prems(7) j) simp
    then have "map_of (parsed_data st1) (circuit_names ! j) = Some e"
      using Cons.prems(2) by (simp add: s update_conv')
    moreover have "circuit_name st1 = Some (circuit_names ! jc)"
      using Cons.prems(4) by (simp add: s)
    ultimately show ?thesis
      using Cons.IH [OF st1(2) _ Cons.prems(3), of jc] Cons.prems(5,6,7) by simp
  next
    case 3
    from step_other [OF 3, of i st] st1(1) have "st1 = st" by simp
    then show ?thesis
      using Cons.IH [OF st1(2) _ Cons.prems(3), of jc] Cons.prems(2,4,5,6,7) by simp
  qed
qed

text \<open>The state of the loop, as the pairing of the lines read so far sees it.\<close>

lemma parse_loop_pairing:
  assumes "parse_loop i lines st = Returns st'"
    and "\<forall>name e. map_of (parsed_data st') name = Some e \<longrightarrow> time_ms e \<noteq> None"
    and "q = No_size \<longrightarrow> circuit_name st = None"
    and "q \<noteq> No_size \<longrightarrow>
           (\<exists>jc. jc < i \<and> jc < length circuit_names \<and> circuit_name st = Some (circuit_names ! jc)
              \<and> (q = Awaiting \<longrightarrow>
                   (\<exists>e. map_of (parsed_data st) (circuit_names ! jc) = Some e \<and> time_ms e = None)))"
  shows "pairing_ok q (map kind_of lines)"
  using assms
proof (induction lines arbitrary: i st q)
  case Nil
  then have st: "st' = st" by simp
  have "q \<noteq> Awaiting"
  proof
    assume "q = Awaiting"
    with Nil.prems(4) obtain jc e where
      "map_of (parsed_data st) (circuit_names ! jc) = Some e" "time_ms e = None"
      by auto
    with Nil.prems(2) st show False by blast
  qed
  then show ?case by simp
next
  case (Cons line lines)
  from Cons.prems(1) obtain st1 where st1: "step i line st = Returns st1"
    "parse_loop (Suc i) lines st1 = Returns st'"
    by (cases "step i line st") auto
  show ?case
  proof (cases line rule: kind_cases)
    case 1
    from step_size [OF 1 st1(1)] obtain n where i: "i < length circuit_names"
      and s: "st1 = \<lparr>parsed_data = AList.update (circuit_names ! i) \<lparr>size = n, time_ms = None\<rparr>
                                       (parsed_data st),
                      circuit_name = Some (circuit_names ! i)\<rparr>"
      by blast
    have q: "q \<noteq> Awaiting"
    proof
      assume "q = Awaiting"
      with Cons.prems(4) obtain jc e where jc: "jc < i" "jc < length circuit_names"
        "map_of (parsed_data st) (circuit_names ! jc) = Some e" "time_ms e = None"
        by auto
      have "circuit_names ! i \<noteq> circuit_names ! jc"
        using jc(1) by (intro circuit_names_neq i jc(2)) simp
      then have "map_of (parsed_data st1) (circuit_names ! jc) = Some e"
        using jc(3) by (simp add: s update_conv')
      moreover have "circuit_name st1 = Some (circuit_names ! i)" by (simp add: s)
      ultimately have "\<exists>e'. map_of (parsed_data st') (circuit_names ! jc) = Some e' \<and> time_ms e' = None"
        using jc(1,4) i by (intro stale_entry_stays [OF st1(2), of jc e i]) simp_all
      with Cons.prems(2) show False by blast
    qed
    have "map_of (parsed_data st1) (circuit_names ! i) = Some \<lparr>size = n, time_ms = None\<rparr>"
      by (simp add: s update_conv')
    then have "i < Suc i \<and> i < length circuit_names \<and> circuit_name st1 = Some (circuit_names ! i)
          \<and> (Awaiting = Awaiting \<longrightarrow>
                (\<exists>e. map_of (parsed_data st1) (circuit_names ! i) = Some e \<and> time_ms e = None))"
      using i by (simp add: s)
    then have "pairing_ok Awaiting (map kind_of lines)"
      by (intro Cons.IH [OF st1(2) Cons.prems(2)]) blast+
    with q 1 show ?thesis by simp
  next
    case 2
    from step_elapsed [OF 2 st1(1)]
    obtain name e0 t where nm: "circuit_name st = Some name"
      and s: "st1 = st\<lparr>parsed_data := AList.update name (e0\<lparr>time_ms := Some t\<rparr>) (parsed_data st)\<rparr>"
      by blast
    from nm Cons.prems(3) have q: "q \<noteq> No_size" by auto
    with Cons.prems(4) nm obtain jc where jc: "jc < i" "jc < length circuit_names"
      "name = circuit_names ! jc"
      by auto
    have "jc < Suc i \<and> jc < length circuit_names \<and> circuit_name st1 = Some (circuit_names ! jc)
          \<and> (Timed = Awaiting \<longrightarrow>
                (\<exists>e. map_of (parsed_data st1) (circuit_names ! jc) = Some e \<and> time_ms e = None))"
      using jc nm by (simp add: s)
    then have "pairing_ok Timed (map kind_of lines)"
      by (intro Cons.IH [OF st1(2) Cons.prems(2)]) blast+
    with q 2 show ?thesis by simp
  next
    case 3
    from step_other [OF 3, of i st] st1(1) have "st1 = st" by simp
    moreover have "q \<noteq> No_size \<longrightarrow>
           (\<exists>jc. jc < Suc i \<and> jc < length circuit_names \<and> circuit_name st = Some (circuit_names ! jc)
              \<and> (q = Awaiting \<longrightarrow>
                   (\<exists>e. map_of (parsed_data st) (circuit_names ! jc) = Some e \<and> time_ms e = None)))"
      using Cons.prems(4) less_Suc_eq by blast
    ultimately have "pairing_ok q (map kind_of lines)"
      using Cons.prems(3) by (intro Cons.IH [OF st1(2) Cons.prems(2)]) simp_all
    with 3 show ?thesis by simp
  qed
qed

lemma parse_result_returns:
  assumes "parse_result lines = Returns rows"
  shows "pairing_ok No_size (map kind_of lines)"
    and "\<forall>k < length lines. kind_of (lines ! k) = Size_line \<longrightarrow> k < length circuit_names"
proof -
  from assms obtain st' where l: "parse_loop 0 lines \<lparr>parsed_data = [], circuit_name = None\<rparr> = Returns st'"
    and w: "write_rows (parsed_data st') = Returns rows"
    by (cases "parse_loop 0 lines \<lparr>parsed_data = [], circuit_name = None\<rparr>")
       (auto simp: parse_result_def)
  have "\<forall>name e. map_of (parsed_data st') name = Some e \<longrightarrow> time_ms e \<noteq> None"
    using write_rows_needs_time [OF w] by (blast dest: map_of_SomeD)
  then show "pairing_ok No_size (map kind_of lines)"
    by (intro parse_loop_pairing [OF l]) simp_all
  show "\<forall>k < length lines. kind_of (lines ! k) = Size_line \<longrightarrow> k < length circuit_names"
    using parse_loop_size_index [OF l] by auto
qed

lemmas parse_eval =
  step_def startswith_def re_search_run_def group_def is_digit_def is_digit_or_dot_def
  list_index_def int_of_digits_def digit_val_def

lemma round_double_quarter: "round_double (21 / 4) = 21 / 4" "\<not> double_overflow (21 / 4)"
  using no_overflow_exact [of 21 "- 2"] round_double_exact [of 21 "- 2"]
  by (simp_all add: pow2_def)

lemma float_of_text_5_25: "float_of_text ''5.25'' = Returns (Finite (21 / 4))"
  by (simp add: float_of_text_def is_digit_def int_of_digits_def digit_val_def round_double_quarter)

lemma round_double_6_5: "round_double (13 / 2) = 13 / 2" "\<not> double_overflow (13 / 2)"
  using no_overflow_exact [of 13 "- 1"] round_double_exact [of 13 "- 1"]
  by (simp_all add: pow2_def)

lemma float_of_text_6_5: "float_of_text ''6.5'' = Returns (Finite (13 / 2))"
  by (simp add: float_of_text_def is_digit_def int_of_digits_def digit_val_def round_double_6_5)

text \<open>
  Claim C9 as stated fails twice.  A log of one size line and one elapsed line has two
  matching lines, fewer than the 25 names, and is parsed into one row.  A log of a size line
  and two elapsed lines is not strictly interleaved, and is parsed into one row too (the
  second time replaces the first).
\<close>

theorem parse_result_succeeds_counterexample:
  "length circuit_names = 25
   \<and> length (matching [''The size of the serialized object is 100 bytes'' @ [CHR 0x0A],
                        ''Elapsed: 5.25 ms'' @ [CHR 0x0A]]) = 2
   \<and> parse_result [''The size of the serialized object is 100 bytes'' @ [CHR 0x0A],
                    ''Elapsed: 5.25 ms'' @ [CHR 0x0A]]
       = Returns [(''amortized_aco_512_12.txt'', 100, Finite (21 / 4))]
   \<and> \<not> strictly_interleaved
         (matching [''The size of the serialized object is 100 bytes'' @ [CHR 0x0A],
                    ''Elapsed: 5.25 ms'' @ [CHR 0x0A], ''Elapsed: 6.5 ms'' @ [CHR 0x0A]])
   \<and> parse_result [''The size of the serialized object is 100 bytes'' @ [CHR 0x0A],
                    ''Elapsed: 5.25 ms'' @ [CHR 0x0A], ''Elapsed: 6.5 ms'' @ [CHR 0x0A]]
       = Returns [(''amortized_aco_512_12.txt'', 100, Finite (13 / 2))]"
proof -
  have "parse_result [''The size of the serialized object is 100 bytes'' @ [CHR 0x0A],
                      ''Elapsed: 5.25 ms'' @ [CHR 0x0A]]
        = Returns [(''amortized_aco_512_12.txt'', 100, Finite (21 / 4))]"
    by (simp add: parse_result_def parse_eval float_of_text_5_25 circuit_names_def)
  moreover have "parse_result [''The size of the serialized object is 100 bytes'' @ [CHR 0x0A],
                      ''Elapsed: 5.25 ms'' @ [CHR 0x0A], ''Elapsed: 6.5 ms'' @ [CHR 0x0A]]
        = Returns [(''amortized_aco_512_12.txt'', 100, Finite (13 / 2))]"
    by (simp add: parse_result_def parse_eval float_of_text_5_25 float_of_text_6_5
        circuit_names_def)
  ultimately show ?thesis
    by (simp add: circuit_names_length matching_def kind_of_def startswith_def)
qed

text \<open>
  Claim C9, as amended.  The parser fails (some exception leaves it) whenever a size line
  stands at a line index that is not below the number of names, whenever an elapsed line
  comes before the first size line, and whenever a size line is followed by the next size
  line or by the end of the log with no elapsed line in between.
\<close>

theorem parse_result_fails:
  assumes "(\<exists>k < length lines. kind_of (lines ! k) = Size_line \<and> length circuit_names \<le> k)
           \<or> \<not> pairing_ok No_size (map kind_of lines)"
  shows "\<exists>e. parse_result lines = Raises e"
proof (cases "parse_result lines")
  case (Returns rows)
  from parse_result_returns [OF Returns] assms show ?thesis
    by (auto simp: not_le)
next
  case (Raises e)
  then show ?thesis by simp
next
  case Outside_model
  then show ?thesis using parse_result_not_outside [of lines] by simp
qed

theorem parse_result_fails_witness:
  "\<not> pairing_ok No_size
       (map kind_of [''The size of the serialized object is 100 bytes'' @ [CHR 0x0A],
                     ''The size of the serialized object is 200 bytes'' @ [CHR 0x0A],
                     ''Elapsed: 5.25 ms'' @ [CHR 0x0A]])
   \<and> (\<exists>e. parse_result [''The size of the serialized object is 100 bytes'' @ [CHR 0x0A],
                           ''The size of the serialized object is 200 bytes'' @ [CHR 0x0A],
                           ''Elapsed: 5.25 ms'' @ [CHR 0x0A]] = Raises e)
   \<and> \<not> pairing_ok No_size (map kind_of [''Elapsed: 5.25 ms'' @ [CHR 0x0A]])
   \<and> (\<exists>e. parse_result [''Elapsed: 5.25 ms'' @ [CHR 0x0A]] = Raises e)"
proof -
  have 1: "\<not> pairing_ok No_size
       (map kind_of [''The size of the serialized object is 100 bytes'' @ [CHR 0x0A],
                     ''The size of the serialized object is 200 bytes'' @ [CHR 0x0A],
                     ''Elapsed: 5.25 ms'' @ [CHR 0x0A]])"
    by (simp add: kind_of_def startswith_def)
  have 2: "\<not> pairing_ok No_size (map kind_of [''Elapsed: 5.25 ms'' @ [CHR 0x0A]])"
    by (simp add: kind_of_def startswith_def)
  from 1 2 parse_result_fails [of "[''The size of the serialized object is 100 bytes'' @ [CHR 0x0A],
                     ''The size of the serialized object is 200 bytes'' @ [CHR 0x0A],
                     ''Elapsed: 5.25 ms'' @ [CHR 0x0A]]"]
    parse_result_fails [of "[''Elapsed: 5.25 ms'' @ [CHR 0x0A]]"]
  show ?thesis by blast
qed

end
